theory Spec2Isabelle
  imports Complex_Main
begin

section \<open>The scrape-playlist route: data and the JavaScript primitives it uses\<close>

text \<open>
  The development follows \<^verbatim>\<open>src/app/api/scrape-playlist/route.ts\<close>. A JavaScript
  string is a sequence of UTF-16 code units, so it is modelled as a list of naturals;
  \<open>js\<close> turns an ASCII literal into such a list.
\<close>

type_synonym jsstring = "nat list"

definition js :: "string \<Rightarrow> jsstring" where
  "js s = map of_char s"

subsection \<open>Character classes of the pattern and of \<^verbatim>\<open>trim\<close>\<close>

text \<open>\<^verbatim>\<open>\d\<close>: the ten ASCII digits.\<close>

definition is_digit :: "nat \<Rightarrow> bool" where
  "is_digit c \<longleftrightarrow> 48 \<le> c \<and> c \<le> 57"

text \<open>\<^verbatim>\<open>[\d,.]\<close>: a digit, a comma (44) or a full stop (46).\<close>

definition num_char :: "nat \<Rightarrow> bool" where
  "num_char c \<longleftrightarrow> is_digit c \<or> c = 44 \<or> c = 46"

text \<open>
  \<^verbatim>\<open>[KMB]\<close> under the \<^verbatim>\<open>i\<close> flag (no \<^verbatim>\<open>u\<close> flag): a code unit whose upper-case
  form is K, M or B. Canonicalisation never maps a code unit above 127 to an ASCII
  letter, so these are the six ASCII letters only.
\<close>

definition kmb_char :: "nat \<Rightarrow> bool" where
  "kmb_char c \<longleftrightarrow> c \<in> {75, 77, 66, 107, 109, 98}"

text \<open>
  \<^verbatim>\<open>\s\<close>, which is also what \<^verbatim>\<open>String.prototype.trim\<close> strips: the ECMAScript
  white space and line terminator code points.
\<close>

definition white_space :: "nat \<Rightarrow> bool" where
  "white_space c \<longleftrightarrow>
     c \<in> {9, 10, 11, 12, 13, 32, 160, 5760, 8232, 8233, 8239, 8287, 12288, 65279}
     \<or> (8192 \<le> c \<and> c \<le> 8202)"

text \<open>Upper-casing of one code unit; only the ASCII letters change.\<close>

definition upper_cu :: "nat \<Rightarrow> nat" where
  "upper_cu c = (if 97 \<le> c \<and> c \<le> 122 then c - 32 else c)"

text \<open>
  \<^verbatim>\<open>toUpperCase\<close>, as far as this program needs it: it is only applied to the
  capture group, which holds ASCII digits, commas, full stops and one of the six
  letters above; other code units are left as they are.
\<close>

definition toUpperCase :: "jsstring \<Rightarrow> jsstring" where
  "toUpperCase s = map upper_cu s"

definition trim :: "jsstring \<Rightarrow> jsstring" where
  "trim s = rev (dropWhile white_space (rev (dropWhile white_space s)))"

text \<open>\<^verbatim>\<open>s.replace(/,/g, "")\<close>: every comma is removed.\<close>

definition strip_commas :: "jsstring \<Rightarrow> jsstring" where
  "strip_commas s = filter (\<lambda>c. c \<noteq> 44) s"

definition endsWith :: "jsstring \<Rightarrow> nat \<Rightarrow> bool" where
  "endsWith s c \<longleftrightarrow> s \<noteq> [] \<and> last s = c"

subsection \<open>JavaScript numbers\<close>

text \<open>
  A \<^verbatim>\<open>number\<close> is an IEEE 754 double. The values this program can produce are
  \<^verbatim>\<open>NaN\<close>, \<^verbatim>\<open>+Infinity\<close> and the non-negative finite doubles (the pattern admits
  no sign); a finite double is kept as the rational it denotes.
\<close>

datatype jsnum = NaN | PosInf | Fin rat

fun bitlen_nat :: "nat \<Rightarrow> nat" where
  "bitlen_nat n = (if n = 0 then 0 else Suc (bitlen_nat (n div 2)))"

declare bitlen_nat.simps [simp del]

text \<open>\<open>ilog2 n d\<close> is the integer part of the binary logarithm of \<open>n / d\<close>, for positive \<open>n\<close> and \<open>d\<close>.\<close>

definition ilog2 :: "nat \<Rightarrow> nat \<Rightarrow> int" where
  "ilog2 n d =
     (let k = int (bitlen_nat n) - int (bitlen_nat d)
      in if (if 0 \<le> k then d * 2 ^ nat k \<le> n else d \<le> n * 2 ^ nat (- k)) then k else k - 1)"

text \<open>The quotient \<open>n / d\<close> rounded to the nearest integer, ties to the even one.\<close>

definition round_div_even :: "nat \<Rightarrow> nat \<Rightarrow> nat" where
  "round_div_even n d =
     (let q = n div d; r = n mod d
      in if 2 * r < d then q else if d < 2 * r then q + 1 else if even q then q else q + 1)"

definition pow2 :: "int \<Rightarrow> rat" where
  "pow2 e = (if 0 \<le> e then 2 ^ nat e else 1 / 2 ^ nat (- e))"

text \<open>
  \<open>round_double n d\<close> is the double nearest to \<open>n / d\<close> (round to nearest, ties to
  even): a 53-bit significand times a power of two that is at least \<open>2^-1074\<close>, and
  \<^verbatim>\<open>+Infinity\<close> from \<open>2^1024\<close> on.
\<close>

definition round_double :: "nat \<Rightarrow> nat \<Rightarrow> jsnum" where
  "round_double n d =
     (if n = 0 then Fin 0
      else let e = max (ilog2 n d - 52) (- 1074);
               m = (if 0 \<le> e then round_div_even n (d * 2 ^ nat e)
                    else round_div_even (n * 2 ^ nat (- e)) d)
           in if 1024 < int (bitlen_nat m) + e then PosInf else Fin (of_nat m * pow2 e))"

text \<open>\<open>x * k\<close> for a positive integer literal \<open>k\<close> (1000, 1000000, 1000000000 are doubles).\<close>

definition times_double :: "jsnum \<Rightarrow> nat \<Rightarrow> jsnum" where
  "times_double x k =
     (case x of
        NaN \<Rightarrow> NaN
      | PosInf \<Rightarrow> PosInf
      | Fin q \<Rightarrow> (case quotient_of q of (a, b) \<Rightarrow> round_double (nat a * k) (nat b)))"

definition digits_value :: "jsstring \<Rightarrow> nat" where
  "digits_value ds = foldl (\<lambda>acc c. 10 * acc + (c - 48)) 0 ds"

text \<open>
  \<^verbatim>\<open>parseFloat\<close> on the strings that reach it here (digits, full stops, then K, M
  or B; no sign, no exponent, no white space): the longest prefix that is a decimal
  literal, \<open>digits [. digits]\<close> or \<open>. digits\<close>, rounded to a double; \<^verbatim>\<open>NaN\<close> when
  there is no such prefix. (Beyond 20 significant digits ECMAScript lets an
  implementation ignore the later digits; the model rounds the exact value.)
\<close>

definition parseFloat :: "jsstring \<Rightarrow> jsnum" where
  "parseFloat s =
     (let ip = takeWhile is_digit s;
          r = dropWhile is_digit s;
          fp = (case r of [] \<Rightarrow> [] | c # cs \<Rightarrow> if c = 46 then takeWhile is_digit cs else [])
      in if ip = [] \<and> fp = [] then NaN
         else round_double (digits_value (ip @ fp)) (10 ^ length fp))"

text \<open>
  \<^verbatim>\<open>parseInt\<close> on the strings that reach it here (digits and full stops): the
  leading digits as a double; \<^verbatim>\<open>NaN\<close> when the string does not start with a digit.
\<close>

definition parseInt :: "jsstring \<Rightarrow> jsnum" where
  "parseInt s =
     (let ip = takeWhile is_digit s
      in if ip = [] then NaN else round_double (digits_value ip) 1)"

subsection \<open>The view-count normalizer (lines 78 to 89)\<close>

text \<open>
  \<^verbatim>\<open>viewsText.match(/^([\d,.]+[KMB]?)\s*views?$/i)\<close>: the result is the first capture
  group, or \<open>None\<close> for \<^verbatim>\<open>null\<close>. The classes \<^verbatim>\<open>[\d,.]\<close>, \<^verbatim>\<open>[KMB]\<close>, \<^verbatim>\<open>\s\<close> and
  the letter v are pairwise disjoint, so the greedy match never has to give a
  character back.
\<close>

definition viewsMatch :: "jsstring \<Rightarrow> jsstring option" where
  "viewsMatch s =
     (let num = takeWhile num_char s;
          r1 = dropWhile num_char s;
          suf = (case r1 of [] \<Rightarrow> [] | c # cs \<Rightarrow> if kmb_char c then [c] else []);
          r2 = dropWhile white_space (drop (length suf) r1)
      in if num \<noteq> [] \<and> map upper_cu r2 \<in> {js ''VIEW'', js ''VIEWS''}
         then Some (num @ suf) else None)"

definition normalize_views :: "jsstring \<Rightarrow> jsnum" where
  "normalize_views viewsText =
     (case viewsMatch viewsText of
        None \<Rightarrow> Fin 0
      | Some g \<Rightarrow>
          (let viewString = strip_commas (toUpperCase g)
           in if endsWith viewString 75 then times_double (parseFloat viewString) 1000
              else if endsWith viewString 77 then times_double (parseFloat viewString) 1000000
              else if endsWith viewString 66 then times_double (parseFloat viewString) 1000000000
              else parseInt viewString))"

subsection \<open>The field extractor (lines 67 to 95)\<close>

text \<open>
  What the callback of \<^verbatim>\<open>page.$$eval\<close> reads from one item container: for each of
  the three \<^verbatim>\<open>querySelector\<close> calls, \<open>None\<close> when no node matches, otherwise the
  \<^verbatim>\<open>textContent\<close> (a string for every element node) or the \<^verbatim>\<open>src\<close> of the node.
\<close>

record element =
  video_title :: "jsstring option"
  video_info_span :: "jsstring option"
  img_src :: "jsstring option"

record VideoData =
  title :: jsstring
  views :: jsnum
  thumbnail :: jsstring

text \<open>
  \<^verbatim>\<open>el.querySelector(sel)?.textContent?.trim() || ""\<close>: the empty string when the
  node is absent (and \<^verbatim>\<open>|| ""\<close> maps the empty string to itself).
\<close>

definition text_or_empty :: "jsstring option \<Rightarrow> jsstring" where
  "text_or_empty node = (case node of None \<Rightarrow> [] | Some t \<Rightarrow> trim t)"

definition src_or_empty :: "jsstring option \<Rightarrow> jsstring" where
  "src_or_empty node = (case node of None \<Rightarrow> [] | Some u \<Rightarrow> u)"

definition extract_video :: "element \<Rightarrow> VideoData" where
  "extract_video el =
     (let title = text_or_empty (video_title el);
          viewsText = text_or_empty (video_info_span el);
          thumbnail = src_or_empty (img_src el)
      in \<lparr>title = title, views = normalize_views viewsText, thumbnail = thumbnail\<rparr>)"

text \<open>\<^verbatim>\<open>elements.map((el) => ...)\<close> over the matched containers, in document order.\<close>

definition extract_videos :: "element list \<Rightarrow> VideoData list" where
  "extract_videos elements = map extract_video elements"

subsection \<open>The browser page and the scroll loop (lines 52 to 64)\<close>

text \<open>
  The browser is a collaborator. A page state is a value of an arbitrary type \<open>'p\<close>, and
  the four things the request handler does with a page are functions on it:
  \<^item> \<open>selector_found\<close>: \<^verbatim>\<open>waitForSelector\<close> finds an item container within 30000 ms;
  \<^item> \<open>scrollHeight\<close>: \<^verbatim>\<open>document.body.scrollHeight\<close>;
  \<^item> \<open>scroll_and_wait\<close>: the page after \<^verbatim>\<open>window.scrollTo(0, scrollHeight)\<close> and
    the 2000 ms timer, \<open>None\<close> when the in-page script fails there;
  \<^item> \<open>containers\<close>: the elements matching \<^verbatim>\<open>#contents ytd-playlist-video-renderer\<close>
    in document order, \<open>None\<close> when \<^verbatim>\<open>$$eval\<close> fails.
\<close>

record 'p dom =
  selector_found :: "'p \<Rightarrow> bool"
  scrollHeight :: "'p \<Rightarrow> nat"
  scroll_and_wait :: "'p \<Rightarrow> 'p option"
  containers :: "'p \<Rightarrow> element list option"

datatype attempt_error =
  NavigationFailed | SelectorTimeout | ScriptError | PushFailed | HandlerTimeout

text \<open>
  The \<^verbatim>\<open>while (true)\<close> loop. The second argument is the time spent in the timer so
  far, in milliseconds. The loop may run forever: then the value is \<open>None\<close>. No
  task runs between the comparison and the next read of the height, so the height read
  at the top of an iteration is the one compared at the end of the previous one.
\<close>

partial_function (option) scroll_loop ::
  "'p dom \<Rightarrow> 'p \<Rightarrow> nat \<Rightarrow> ((attempt_error + 'p) \<times> nat) option" where
  "scroll_loop d p waited =
     (let oldHeight = scrollHeight d p
      in case scroll_and_wait d p of
           None \<Rightarrow> Some (Inl ScriptError, waited)
         | Some p' \<Rightarrow>
             if scrollHeight d p' = oldHeight then Some (Inr p', waited + 2000)
             else scroll_loop d p' (waited + 2000))"

text \<open>The page after \<open>n\<close> rounds of scrolling and waiting, and the height measured then.\<close>

fun page_after :: "'p dom \<Rightarrow> nat \<Rightarrow> 'p \<Rightarrow> 'p option" where
  "page_after d 0 p = Some p"
| "page_after d (Suc n) p = (case scroll_and_wait d p of None \<Rightarrow> None | Some p' \<Rightarrow> page_after d n p')"

definition measured :: "'p dom \<Rightarrow> 'p \<Rightarrow> nat \<Rightarrow> nat option" where
  "measured d p n = map_option (scrollHeight d) (page_after d n p)"

text \<open>The height is unchanged between measurement \<open>n\<close> and measurement \<open>n + 1\<close>.\<close>

definition stable_at :: "'p dom \<Rightarrow> 'p \<Rightarrow> nat \<Rightarrow> bool" where
  "stable_at d p n \<longleftrightarrow> measured d p n \<noteq> None \<and> measured d p (Suc n) = measured d p n"

text \<open>A page that grows by one unit per scroll until it has height \<open>N\<close>.\<close>

definition growing_page :: "nat \<Rightarrow> nat dom" where
  "growing_page N =
     \<lparr>selector_found = (\<lambda>p. True), scrollHeight = (\<lambda>p. min p N),
      scroll_and_wait = (\<lambda>p. Some (Suc p)), containers = (\<lambda>p. Some [])\<rparr>"

text \<open>
  What a returned loop satisfies: a normal return happened at the first round that left
  the height unchanged, a failure at the first round in which the script failed, and
  each round before it cost one 2000 ms timer.
\<close>

definition loop_post :: "'p dom \<Rightarrow> 'p \<Rightarrow> nat \<Rightarrow> (attempt_error + 'p) \<times> nat \<Rightarrow> bool" where
  "loop_post d p w r \<longleftrightarrow>
     (case r of
        (Inr q, t) \<Rightarrow>
          \<exists>n. stable_at d p n \<and> (\<forall>k<n. \<not> stable_at d p k)
              \<and> page_after d (Suc n) p = Some q \<and> t = w + 2000 * Suc n
      | (Inl e, t) \<Rightarrow>
          e = ScriptError
          \<and> (\<exists>n. page_after d (Suc n) p = None \<and> (\<forall>k<n. \<not> stable_at d p k) \<and> t = w + 2000 * n))"

subsection \<open>Requests, responses and the session store\<close>

text \<open>
  What line 19, \<^verbatim>\<open>const { playlistUrl } = await request.json()\<close>, makes of the request.
  \<open>BadBody\<close> stands for every request on which that line throws: the body is not
  JSON, so that the promise rejects, or the body is the JSON value \<^verbatim>\<open>null\<close>, which
  cannot be destructured. \<open>Body x\<close> is any other body: \<open>x\<close> is its \<^verbatim>\<open>playlistUrl\<close>
  property, a string as the request interface \<^verbatim>\<open>{ playlistUrl: string }\<close> has it, and
  \<open>None\<close> when the body has no such property.
\<close>

datatype request = BadBody | Body "jsstring option"

text \<open>
  One batch of the dataset: the object \<^verbatim>\<open>{ videos }\<close> given to \<^verbatim>\<open>pushData\<close>. The
  store hands a batch back as it was pushed. (The JSON encoding used by the store and by
  the response writes \<^verbatim>\<open>NaN\<close> and \<^verbatim>\<open>Infinity\<close> as \<^verbatim>\<open>null\<close>; finite numbers pass
  unchanged. That encoding is not part of the model.)
\<close>

record Item =
  videos :: "VideoData list"

text \<open>
  An entry of \<^verbatim>\<open>graphData\<close>, \<^verbatim>\<open>{ name, views }\<close>; its second field is called
  \<open>point_views\<close> here because \<open>views\<close> is already the field of \<open>VideoData\<close>.
\<close>

record GraphPoint =
  name :: jsstring
  point_views :: jsnum

record PlaylistData =
  videoList :: "VideoData list"
  graphData :: "GraphPoint list"

text \<open>
  \<^verbatim>\<open>NextResponse.json(playlistData)\<close> is \<open>Success\<close>;
  \<^verbatim>\<open>NextResponse.json({ error }, { status })\<close> is \<open>Failure status error\<close>.
\<close>

datatype response = Success PlaylistData | Failure nat jsstring

text \<open>How a call of \<^verbatim>\<open>POST\<close> ends: with a response, or with a rejected promise
  (an exception that no handler of the route catches).\<close>

datatype result = Responded response | Rejected

text \<open>
  What is observed of one call: its result, the number of datasets it opened, the number
  of calls of \<^verbatim>\<open>dataset.drop()\<close> it made, and how many of them succeeded.
\<close>

record run =
  result :: result
  opens :: nat
  drop_calls :: nat
  disposed :: nat

text \<open>
  Everything outside the route that a call depends on:
  \<^item> \<open>new_URL\<close>: the query pairs of \<^verbatim>\<open>new URL(s).searchParams\<close> in order, \<open>None\<close>
    when the constructor throws its \<^verbatim>\<open>TypeError\<close>;
  \<^item> \<open>open_rejects\<close>, \<open>getData_rejects\<close>: the storage call rejects;
  \<^item> \<open>stored\<close>: the batches already in the dataset when it is opened (none, unless
    the random session identifier collides);
  \<^item> \<open>browser\<close>: the pages, as above; \<open>goto i\<close>: the page the \<open>i\<close>-th attempt
    arrives at, \<open>None\<close> when the navigation fails;
  \<^item> \<open>pushData_rejects i\<close>: \<^verbatim>\<open>pushData\<close> rejects in the \<open>i\<close>-th attempt;
  \<^item> \<open>maxRequestRetries\<close>: how often the crawler retries a failed request;
  \<^item> \<open>requestHandlerTimeout\<close>: the time in milliseconds after which the crawler stops
    a request handler that is still running (an option of the crawler that the route
    does not set, so the library's default applies);
  \<^item> \<open>overhead i\<close>: the time in milliseconds that the handler of attempt \<open>i\<close> spends
    outside the timers of the scroll loop (waiting for the selector, running scripts);
  \<^item> \<open>run_rejects\<close>: \<^verbatim>\<open>crawler.run\<close> itself rejects;
  \<^item> \<open>drop_rejects k\<close>: the call of \<^verbatim>\<open>drop\<close> made after \<open>k\<close> earlier calls rejects.
\<close>

record 'p world =
  new_URL :: "jsstring \<Rightarrow> (jsstring \<times> jsstring) list option"
  open_rejects :: bool
  stored :: "Item list"
  browser :: "'p dom"
  goto :: "nat \<Rightarrow> 'p option"
  pushData_rejects :: "nat \<Rightarrow> bool"
  maxRequestRetries :: nat
  requestHandlerTimeout :: nat
  overhead :: "nat \<Rightarrow> nat"
  run_rejects :: bool
  getData_rejects :: bool
  drop_rejects :: "nat \<Rightarrow> bool"

subsection \<open>The request handler and the crawler (lines 45 to 107)\<close>

text \<open>
  \<^verbatim>\<open>requestHandler\<close> on the page of attempt \<open>i\<close>, with the batches stored so far:
  an error when a step throws, the extended store when it completes. The crawler runs
  the handler under its time limit: a handler whose scroll loop never returns, or has
  not returned when the limit expires, is stopped and the attempt fails with
  \<open>HandlerTimeout\<close>. The time a handler has taken when its loop returns is the time
  spent in the timers of the loop plus the overhead of the attempt. The result is
  never \<open>None\<close>.
\<close>

definition requestHandler ::
  "'p world \<Rightarrow> nat \<Rightarrow> 'p \<Rightarrow> Item list \<Rightarrow> (attempt_error + Item list) option" where
  "requestHandler w i p items =
     (if \<not> selector_found (browser w) p then Some (Inl SelectorTimeout)
      else case scroll_loop (browser w) p 0 of
             None \<Rightarrow> Some (Inl HandlerTimeout)
           | Some (r, t) \<Rightarrow>
               if requestHandlerTimeout w \<le> overhead w i + t then Some (Inl HandlerTimeout)
               else (case r of
                       Inl e \<Rightarrow> Some (Inl e)
                     | Inr p' \<Rightarrow>
                         (case containers (browser w) p' of
                            None \<Rightarrow> Some (Inl ScriptError)
                          | Some elements \<Rightarrow>
                              if pushData_rejects w i then Some (Inl PushFailed)
                              else Some (Inr (items @ [\<lparr>videos = extract_videos elements\<rparr>])))))"

text \<open>
  The crawler is the library \<^verbatim>\<open>crawlee\<close>, a collaborator. Constructing it (line 45)
  with the options of the route, which are constants, is taken to succeed. Its contract
  for the one request of \<^verbatim>\<open>crawler.run\<close>, as this route relies on it: an attempt navigates and
  then calls \<^verbatim>\<open>requestHandler\<close>; an attempt that throws is caught by the crawler and
  the request is tried again; when no retry is left the crawler calls
  \<^verbatim>\<open>failedRequestHandler\<close>, which here only writes a log line, and \<^verbatim>\<open>run\<close> resolves.
  \<open>attempts w k i items\<close> has \<open>k\<close> tries left for attempt number \<open>i\<close>; it yields the
  store and the number of calls of \<^verbatim>\<open>failedRequestHandler\<close>. Since every handler
  ends, by itself or by the time limit, \<^verbatim>\<open>run\<close> always ends; the option type of the
  functions below is kept for a call that would not return, and \<open>POST_returns\<close> shows
  that there is none.
\<close>

fun attempts :: "'p world \<Rightarrow> nat \<Rightarrow> nat \<Rightarrow> Item list \<Rightarrow> (Item list \<times> nat) option" where
  "attempts w 0 i items = Some (items, 1)"
| "attempts w (Suc k) i items =
     (case goto w i of
        None \<Rightarrow> attempts w k (Suc i) items
      | Some p \<Rightarrow>
          (case requestHandler w i p items of
             None \<Rightarrow> None
           | Some (Inl e) \<Rightarrow> attempts w k (Suc i) items
           | Some (Inr items') \<Rightarrow> Some (items', 0)))"

text \<open>\<^verbatim>\<open>await crawler.run([...])\<close>: \<open>Inl ()\<close> when the promise rejects.\<close>

definition crawler_run :: "'p world \<Rightarrow> Item list \<Rightarrow> (unit + Item list \<times> nat) option" where
  "crawler_run w items =
     (if run_rejects w then Some (Inl ())
      else map_option Inr (attempts w (Suc (maxRequestRetries w)) 0 items))"

subsection \<open>The route handler \<^verbatim>\<open>POST\<close> (lines 17 to 146)\<close>

text \<open>The decimal digits of a natural number, as the template literal prints it.\<close>

fun decimal :: "nat \<Rightarrow> jsstring" where
  "decimal n = (if n < 10 then [48 + n] else decimal (n div 10) @ [48 + n mod 10])"

declare decimal.simps [simp del]

text \<open>\<^verbatim>\<open>videos.map((video, index) => ({ name: `Video ${index + 1}`, views: video.views }))\<close>\<close>

definition graphData_of :: "VideoData list \<Rightarrow> GraphPoint list" where
  "graphData_of vs =
     map (\<lambda>(video, index). \<lparr>name = js ''Video '' @ decimal (index + 1), point_views = views video\<rparr>)
         (zip vs [0..<length vs])"

text \<open>\<^verbatim>\<open>(results.items[0]?.videos as VideoData[]) || []\<close>\<close>

definition first_batch :: "Item list \<Rightarrow> VideoData list" where
  "first_batch items = (case items of [] \<Rightarrow> [] | item # rest \<Rightarrow> videos item)"

definition playlistData_of :: "Item list \<Rightarrow> PlaylistData" where
  "playlistData_of items =
     (let videos = first_batch items
      in \<lparr>videoList = videos, graphData = graphData_of videos\<rparr>)"

text \<open>A return or throw before \<^verbatim>\<open>Dataset.open\<close> has succeeded.\<close>

definition before_open :: "result \<Rightarrow> run" where
  "before_open r = \<lparr>result = r, opens = 0, drop_calls = 0, disposed = 0\<rparr>"

text \<open>The \<^verbatim>\<open>catch\<close> block (lines 136 to 145), entered after \<open>n\<close> calls of \<^verbatim>\<open>drop\<close>.\<close>

definition catch_block :: "'p world \<Rightarrow> nat \<Rightarrow> run" where
  "catch_block w n =
     (if drop_rejects w n
      then \<lparr>result = Rejected, opens = 1, drop_calls = Suc n, disposed = 0\<rparr>
      else \<lparr>result = Responded (Failure 500 (js ''An error occurred while scraping the playlist'')),
            opens = 1, drop_calls = Suc n, disposed = 1\<rparr>)"

text \<open>The \<^verbatim>\<open>try\<close> block (lines 109 to 135) with its \<^verbatim>\<open>catch\<close>.\<close>

definition try_block :: "'p world \<Rightarrow> run option" where
  "try_block w =
     (case crawler_run w (stored w) of
        None \<Rightarrow> None
      | Some (Inl u) \<Rightarrow> Some (catch_block w 0)
      | Some (Inr (items, failed)) \<Rightarrow>
          if getData_rejects w then Some (catch_block w 0)
          else let playlistData = playlistData_of items
               in if drop_rejects w 0 then Some (catch_block w 1)
                  else Some \<lparr>result = Responded (Success playlistData),
                             opens = 1, drop_calls = 1, disposed = 1\<rparr>)"

definition POST :: "'p world \<Rightarrow> request \<Rightarrow> run option" where
  "POST w request =
     (case request of
        BadBody \<Rightarrow> Some (before_open Rejected)
      | Body None \<Rightarrow> Some (before_open (Responded (Failure 400 (js ''Playlist URL is required''))))
      | Body (Some playlistUrl) \<Rightarrow>
          if playlistUrl = [] then Some (before_open (Responded (Failure 400 (js ''Playlist URL is required''))))
          else (case new_URL w playlistUrl of
                  None \<Rightarrow> Some (before_open Rejected)
                | Some searchParams \<Rightarrow>
                    (case map_of searchParams (js ''list'') of
                       None \<Rightarrow> Some (before_open (Responded (Failure 400 (js ''Invalid playlist URL''))))
                     | Some playlistId \<Rightarrow>
                         if playlistId = [] then Some (before_open (Responded (Failure 400 (js ''Invalid playlist URL''))))
                         else if open_rejects w then Some (before_open Rejected)
                         else try_block w)))"

subsection \<open>Notions used to state the properties\<close>

text \<open>
  The pattern \<^verbatim>\<open>/^([\d,.]+[KMB]?)\s*views?$/i\<close> read as a language: \<open>views_pattern s g\<close>
  says that the whole of \<open>s\<close> is one or more characters of \<^verbatim>\<open>[\d,.]\<close>, then at most one
  of \<^verbatim>\<open>[KMB]\<close>, then white space, then the word view or views in any case, and that
  \<open>g\<close> is the part in the parentheses.
\<close>

definition views_pattern :: "jsstring \<Rightarrow> jsstring \<Rightarrow> bool" where
  "views_pattern s g \<longleftrightarrow>
     (\<exists>num suf ws word.
        s = num @ suf @ ws @ word \<and> g = num @ suf
        \<and> num \<noteq> [] \<and> list_all num_char num
        \<and> (suf = [] \<or> (\<exists>c. suf = [c] \<and> kmb_char c))
        \<and> list_all white_space ws
        \<and> (map upper_cu word = js ''VIEW'' \<or> map upper_cu word = js ''VIEWS''))"

text \<open>A number that is a count: finite, not negative, with denominator one.\<close>

definition nonneg_integer :: "jsnum \<Rightarrow> bool" where
  "nonneg_integer x =
     (case x of Fin q \<Rightarrow> (case quotient_of q of (a, b) \<Rightarrow> 0 \<le> a \<and> b = 1) | NaN \<Rightarrow> False | PosInf \<Rightarrow> False)"

text \<open>
  The count that a capture group without suffix denotes: its leading digits once the
  separators are removed (a full stop ends them, as in \<^verbatim>\<open>parseInt\<close>).
\<close>

definition plain_count :: "jsstring \<Rightarrow> nat" where
  "plain_count g = digits_value (takeWhile is_digit (strip_commas (toUpperCase g)))"

subsection \<open>Sample pages and worlds\<close>

text \<open>
  Three item containers with the view texts of the end-to-end scenario; the second has
  neither a title node nor an image.
\<close>

definition demo_elements :: "element list" where
  "demo_elements =
     [\<lparr>video_title = Some (js '' Intro ''), video_info_span = Some (js ''1,000,000 views''),
       img_src = Some (js ''a.jpg'')\<rparr>,
      \<lparr>video_title = None, video_info_span = Some (js ''500K views''), img_src = None\<rparr>,
      \<lparr>video_title = Some (js ''Outro''), video_info_span = Some (js ''10 views''),
       img_src = None\<rparr>]"

text \<open>A page whose height is stable after the first scroll and that shows these containers.\<close>

definition demo_browser :: "nat dom" where
  "demo_browser = (growing_page 0)\<lparr>containers := (\<lambda>p. Some demo_elements)\<rparr>"

definition demo_url :: jsstring where
  "demo_url = js ''https://www.youtube.com/playlist?list=PL123''"

definition watch_url :: jsstring where
  "watch_url = js ''https://example.com/watch?v=x''"

text \<open>The URL constructor on the strings used below; every other string is taken to be rejected.\<close>

definition demo_new_URL :: "jsstring \<Rightarrow> (jsstring \<times> jsstring) list option" where
  "demo_new_URL s =
     (if s = demo_url then Some [(js ''list'', js ''PL123'')]
      else if s = watch_url then Some [(js ''v'', js ''x'')]
      else None)"

text \<open>A world in which nothing fails.\<close>

definition demo_world :: "nat world" where
  "demo_world =
     \<lparr>new_URL = demo_new_URL, open_rejects = False, stored = [], browser = demo_browser,
      goto = (\<lambda>i. Some 0), pushData_rejects = (\<lambda>i. False), maxRequestRetries = 3,
      requestHandlerTimeout = 60000, overhead = (\<lambda>i. 1500),
      run_rejects = False, getData_rejects = False, drop_rejects = (\<lambda>k. False)\<rparr>"

text \<open>The item containers never appear: every \<^verbatim>\<open>waitForSelector\<close> times out.\<close>

definition never_found_world :: "nat world" where
  "never_found_world = demo_world\<lparr>browser := demo_browser\<lparr>selector_found := (\<lambda>p. False)\<rparr>\<rparr>"

text \<open>Every navigation fails.\<close>

definition offline_world :: "nat world" where
  "offline_world = demo_world\<lparr>goto := (\<lambda>i. None)\<rparr>"

text \<open>The first call of \<^verbatim>\<open>drop\<close> rejects, later ones succeed.\<close>

definition flaky_drop_world :: "nat world" where
  "flaky_drop_world = demo_world\<lparr>drop_rejects := (\<lambda>k. k = 0)\<rparr>"

text \<open>Every call of \<^verbatim>\<open>drop\<close> rejects.\<close>

definition broken_drop_world :: "nat world" where
  "broken_drop_world = demo_world\<lparr>drop_rejects := (\<lambda>k. True)\<rparr>"

text \<open>The dataset already holds a batch when it is opened.\<close>

definition old_batch :: Item where
  "old_batch = \<lparr>videos = [\<lparr>title = js ''old'', views = Fin 7, thumbnail = []\<rparr>]\<rparr>"

definition collided_world :: "nat world" where
  "collided_world = demo_world\<lparr>stored := [old_batch]\<rparr>"

text \<open>A page that grows with every scroll, so that its height never stabilises.\<close>

definition endless_page :: "nat dom" where
  "endless_page =
     \<lparr>selector_found = (\<lambda>p. True), scrollHeight = (\<lambda>p. p),
      scroll_and_wait = (\<lambda>p. Some (Suc p)), containers = (\<lambda>p. Some demo_elements)\<rparr>"

definition endless_world :: "nat world" where
  "endless_world = demo_world\<lparr>browser := endless_page\<rparr>"

text \<open>A page with the sample containers that is stable only after 41 rounds, which take 82 seconds.\<close>

definition slow_world :: "nat world" where
  "slow_world = demo_world\<lparr>browser := (growing_page 40)\<lparr>containers := (\<lambda>p. Some demo_elements)\<rparr>\<rparr>"

text \<open>\<^verbatim>\<open>crawler.run\<close> rejects.\<close>

definition crashed_world :: "nat world" where
  "crashed_world = demo_world\<lparr>run_rejects := True\<rparr>"

text \<open>What the extractor makes of the sample containers.\<close>

definition demo_videos :: "VideoData list" where
  "demo_videos =
     [\<lparr>title = js ''Intro'', views = Fin 1000000, thumbnail = js ''a.jpg''\<rparr>,
      \<lparr>title = [], views = Fin 500000, thumbnail = []\<rparr>,
      \<lparr>title = js ''Outro'', views = Fin 10, thumbnail = []\<rparr>]"

text \<open>
  Attempt \<open>i\<close> fails for one of the reasons of a crawl failure: the navigation fails,
  the wait for the selector times out, the in-page scroll script fails, or the in-page
  extraction script fails.
\<close>

definition attempt_fails :: "'p world \<Rightarrow> nat \<Rightarrow> bool" where
  "attempt_fails w i \<longleftrightarrow>
     (case goto w i of
        None \<Rightarrow> True
      | Some p \<Rightarrow>
          \<not> selector_found (browser w) p
          \<or> (\<exists>t. scroll_loop (browser w) p 0 = Some (Inl ScriptError, t))
          \<or> (\<exists>p' t. scroll_loop (browser w) p 0 = Some (Inr p', t)
                \<and> containers (browser w) p' = None))"

text \<open>A request that passes validation in world \<open>w\<close>: a non-empty locator that the URL
  constructor accepts and whose \<^verbatim>\<open>list\<close> parameter is not empty.\<close>

definition valid_locator :: "'p world \<Rightarrow> jsstring \<Rightarrow> bool" where
  "valid_locator w u \<longleftrightarrow>
     u \<noteq> []
     \<and> (case new_URL w u of
          None \<Rightarrow> False
        | Some searchParams \<Rightarrow>
            (case map_of searchParams (js ''list'') of None \<Rightarrow> False | Some playlistId \<Rightarrow> playlistId \<noteq> []))"

section \<open>The scroll loop stops exactly at the first stable height\<close>

lemma stable_at_0:
  "stable_at d p 0 \<longleftrightarrow>
     (\<exists>p'. scroll_and_wait d p = Some p' \<and> scrollHeight d p' = scrollHeight d p)"
  by (auto simp: stable_at_def measured_def split: option.splits)

lemma stable_at_Suc:
  "scroll_and_wait d p = Some p' \<Longrightarrow> stable_at d p (Suc n) \<longleftrightarrow> stable_at d p' n"
  by (simp add: stable_at_def measured_def)

lemma stable_at_crash:
  "scroll_and_wait d p = None \<Longrightarrow> \<not> stable_at d p n"
  by (cases n) (simp_all add: stable_at_def measured_def)

lemma stable_at_page_after:
  "stable_at d p n \<Longrightarrow> page_after d n p \<noteq> None \<and> page_after d (Suc n) p \<noteq> None"
  unfolding stable_at_def measured_def by (cases "page_after d n p") auto

lemma not_stable_below_Suc:
  assumes "scroll_and_wait d p = Some p'" "\<not> stable_at d p 0" "\<forall>k<n. \<not> stable_at d p' k"
  shows "\<forall>k<Suc n. \<not> stable_at d p k"
proof (intro allI impI)
  fix k assume "k < Suc n"
  then show "\<not> stable_at d p k" using assms by (cases k) (simp_all add: stable_at_Suc)
qed

text \<open>If the height is first unchanged in round \<open>n\<close>, the loop returns after that round.\<close>

lemma scroll_loop_first_stable:
  "stable_at d p n \<Longrightarrow> (\<forall>k<n. \<not> stable_at d p k) \<Longrightarrow>
   \<exists>q. page_after d (Suc n) p = Some q \<and> scroll_loop d p w = Some (Inr q, w + 2000 * Suc n)"
proof (induction n arbitrary: p w)
  case 0
  then obtain p' where "scroll_and_wait d p = Some p'" "scrollHeight d p' = scrollHeight d p"
    by (auto simp: stable_at_0)
  then show ?case by (subst scroll_loop.simps) simp
next
  case (Suc n)
  from Suc.prems(1) obtain p' where p': "scroll_and_wait d p = Some p'"
    using stable_at_crash [of d p "Suc n"] by (cases "scroll_and_wait d p") auto
  from Suc.prems(2) have "\<not> stable_at d p 0" by simp
  with p' have neq: "scrollHeight d p' \<noteq> scrollHeight d p" by (simp add: stable_at_0)
  have st: "stable_at d p' n" using Suc.prems(1) p' by (simp add: stable_at_Suc)
  have least: "\<forall>k<n. \<not> stable_at d p' k"
  proof (intro allI impI)
    fix k assume "k < n"
    then have "\<not> stable_at d p (Suc k)" using Suc.prems(2) by simp
    then show "\<not> stable_at d p' k" using p' by (simp add: stable_at_Suc)
  qed
  from Suc.IH [OF st least, of "w + 2000"] obtain q where
    q: "page_after d (Suc n) p' = Some q"
       "scroll_loop d p' (w + 2000) = Some (Inr q, w + 2000 + 2000 * Suc n)"
    by blast
  have "scroll_loop d p w = scroll_loop d p' (w + 2000)"
    using p' neq by (subst scroll_loop.simps) simp
  with q p' show ?case by simp
qed

text \<open>If the in-page script fails in some round, the loop returns (normally or not).\<close>

lemma scroll_loop_crash_returns:
  "page_after d (Suc n) p = None \<Longrightarrow> \<exists>r. scroll_loop d p w = Some r"
proof (induction n arbitrary: p w)
  case 0
  then have "scroll_and_wait d p = None" by (simp split: option.splits)
  then show ?case by (subst scroll_loop.simps) simp
next
  case (Suc n)
  show ?case
  proof (cases "scroll_and_wait d p")
    case None
    then show ?thesis by (subst scroll_loop.simps) simp
  next
    case (Some p')
    with Suc.prems have "page_after d (Suc n) p' = None" by simp
    from Suc.IH [OF this, of "w + 2000"] obtain r where "scroll_loop d p' (w + 2000) = Some r" ..
    with Some show ?thesis by (subst scroll_loop.simps) simp
  qed
qed

lemma loop_post_step:
  assumes sw: "scroll_and_wait d p = Some p'"
    and neq: "scrollHeight d p' \<noteq> scrollHeight d p"
    and ih: "loop_post d p' (w + 2000) r"
  shows "loop_post d p w r"
proof -
  have n0: "\<not> stable_at d p 0" using sw neq by (simp add: stable_at_0)
  obtain a t where r: "r = (a, t)" by (cases r)
  show ?thesis
  proof (cases a)
    case (Inr q)
    with ih r obtain n where n: "stable_at d p' n" "\<forall>k<n. \<not> stable_at d p' k"
      "page_after d (Suc n) p' = Some q" "t = w + 2000 + 2000 * Suc n"
      by (auto simp: loop_post_def)
    have "stable_at d p (Suc n)" using n(1) sw by (simp add: stable_at_Suc)
    moreover note not_stable_below_Suc [OF sw n0 n(2)]
    moreover have "page_after d (Suc (Suc n)) p = Some q" using n(3) sw by simp
    moreover have "t = w + 2000 * Suc (Suc n)" using n(4) by simp
    ultimately show ?thesis
      unfolding loop_post_def r Inr by (simp only: prod.case sum.case) blast
  next
    case (Inl e)
    with ih r obtain n where n: "e = ScriptError" "page_after d (Suc n) p' = None"
      "\<forall>k<n. \<not> stable_at d p' k" "t = w + 2000 + 2000 * n"
      by (auto simp: loop_post_def)
    have "page_after d (Suc (Suc n)) p = None" using n(2) sw by simp
    moreover note not_stable_below_Suc [OF sw n0 n(3)]
    moreover have "t = w + 2000 * Suc n" using n(4) by simp
    ultimately show ?thesis
      unfolding loop_post_def r Inl using n(1) by (simp only: prod.case sum.case) blast
  qed
qed

text \<open>Whatever the loop returns, it returned in the first stable or the first failing round.\<close>

lemma scroll_loop_returns:
  assumes "scroll_loop d p w = Some r"
  shows "loop_post d p w r"
proof (rule scroll_loop.raw_induct [where P = loop_post, OF _ assms])
  fix loop :: "'p dom \<Rightarrow> 'p \<Rightarrow> nat \<Rightarrow> ((attempt_error + 'p) \<times> nat) option"
  fix d p w r
  assume ih: "\<And>d p w r. loop d p w = Some r \<Longrightarrow> loop_post d p w r"
  assume body: "(let oldHeight = scrollHeight d p
      in case scroll_and_wait d p of None \<Rightarrow> Some (Inl ScriptError, w)
         | Some p' \<Rightarrow> if scrollHeight d p' = oldHeight then Some (Inr p', w + 2000)
             else loop d p' (w + 2000)) = Some r"
  show "loop_post d p w r"
  proof (cases "scroll_and_wait d p")
    case None
    with body have "r = (Inl ScriptError, w)" by simp
    moreover have "page_after d (Suc 0) p = None" using None by simp
    ultimately show ?thesis unfolding loop_post_def by (simp only: prod.case sum.case) force
  next
    case (Some p')
    show ?thesis
    proof (cases "scrollHeight d p' = scrollHeight d p")
      case True
      with Some body have "r = (Inr p', w + 2000)" by simp
      moreover have "stable_at d p 0" using Some True by (simp add: stable_at_0)
      moreover have "page_after d (Suc 0) p = Some p'" using Some by simp
      ultimately show ?thesis unfolding loop_post_def by (simp only: prod.case sum.case) force
    next
      case False
      with Some body have "loop d p' (w + 2000) = Some r" by simp
      from loop_post_step [OF Some False ih [OF this]] show ?thesis .
    qed
  qed
qed

lemma scroll_loop_normal_iff:
  "(\<exists>q t. scroll_loop d p w = Some (Inr q, t)) \<longleftrightarrow> (\<exists>n. stable_at d p n)"
proof
  assume "\<exists>q t. scroll_loop d p w = Some (Inr q, t)"
  then obtain q t where "scroll_loop d p w = Some (Inr q, t)" by blast
  from scroll_loop_returns [OF this] show "\<exists>n. stable_at d p n" by (auto simp: loop_post_def)
next
  assume "\<exists>n. stable_at d p n"
  then obtain n where "stable_at d p n" "\<forall>k<n. \<not> stable_at d p k"
    using exists_least_iff [of "stable_at d p"] by blast
  from scroll_loop_first_stable [OF this, of w]
  show "\<exists>q t. scroll_loop d p w = Some (Inr q, t)" by blast
qed

lemma scroll_loop_None_iff:
  "scroll_loop d p w = None \<longleftrightarrow> (\<forall>n. \<not> stable_at d p n \<and> page_after d n p \<noteq> None)"
proof
  assume none: "scroll_loop d p w = None"
  show "\<forall>n. \<not> stable_at d p n \<and> page_after d n p \<noteq> None"
  proof (intro allI conjI)
    fix n
    show "\<not> stable_at d p n" using none scroll_loop_normal_iff [of d p w] by auto
    show "page_after d n p \<noteq> None"
    proof (cases n)
      case 0
      then show ?thesis by simp
    next
      case (Suc m)
      then show ?thesis using none scroll_loop_crash_returns [of d m p w] by auto
    qed
  qed
next
  assume never: "\<forall>n. \<not> stable_at d p n \<and> page_after d n p \<noteq> None"
  show "scroll_loop d p w = None"
  proof (rule ccontr)
    assume "scroll_loop d p w \<noteq> None"
    then obtain r where "scroll_loop d p w = Some r" by blast
    from scroll_loop_returns [OF this]
    have "(\<exists>n. stable_at d p n) \<or> (\<exists>n. page_after d (Suc n) p = None)"
      by (cases r; cases "fst r") (auto simp: loop_post_def simp del: page_after.simps)
    with never show False by blast
  qed
qed

lemma growing_page_sel:
  "scrollHeight (growing_page N) p = min p N"
  "scroll_and_wait (growing_page N) p = Some (Suc p)"
  "selector_found (growing_page N) p"
  "containers (growing_page N) p = Some []"
  by (simp_all add: growing_page_def)

lemma page_after_growing: "page_after (growing_page N) n p = Some (p + n)"
  by (induction n arbitrary: p) (simp_all add: growing_page_sel)

lemma growing_stable: "stable_at (growing_page N) 0 n \<longleftrightarrow> N \<le> n"
  unfolding stable_at_def measured_def page_after_growing
  by (auto simp: growing_page_sel)

lemma scroll_loop_growing:
  "scroll_loop (growing_page N) 0 0 = Some (Inr (Suc N), 2000 * Suc N)"
proof -
  have "stable_at (growing_page N) 0 N" "\<forall>k<N. \<not> stable_at (growing_page N) 0 k"
    by (simp_all add: growing_stable)
  from scroll_loop_first_stable [OF this, of 0] obtain q where
    "page_after (growing_page N) (Suc N) 0 = Some q"
    "scroll_loop (growing_page N) 0 0 = Some (Inr q, 0 + 2000 * Suc N)"
    by blast
  then show ?thesis by (simp only: page_after_growing) simp
qed

text \<open>
  C8. The loop measures the height, scrolls to the bottom, waits 2000 ms and measures
  again. It returns normally if and only if some round leaves the height unchanged; it
  then returns right after the first such round, having waited 2000 ms per round. It
  never returns if and only if no round leaves the height unchanged and the script
  never fails. There is no bound on the number of rounds: on a page that grows \<open>N\<close>
  times the loop runs \<open>N + 1\<close> rounds.
\<close>

theorem scroll_loop_stops_iff_stable:
  "((\<exists>q t. scroll_loop d p w = Some (Inr q, t)) \<longleftrightarrow> (\<exists>n. stable_at d p n))
   \<and> (\<forall>r. scroll_loop d p w = Some r \<longrightarrow> loop_post d p w r)
   \<and> (scroll_loop d p w = None \<longleftrightarrow> (\<forall>n. \<not> stable_at d p n \<and> page_after d n p \<noteq> None))
   \<and> (\<forall>N. scroll_loop (growing_page N) 0 0 = Some (Inr (Suc N), 2000 * Suc N))"
  using scroll_loop_normal_iff [of d p w] scroll_loop_returns [of d p w]
    scroll_loop_None_iff [of d p w] scroll_loop_growing
  by blast

theorem scroll_loop_stops_iff_stable_witness:
  "stable_at (growing_page 2) 0 2
   \<and> (\<exists>q t. scroll_loop (growing_page 2) 0 5 = Some (Inr q, t))
   \<and> loop_post (growing_page 2) 0 0 (Inr 3, 6000)"
proof -
  have st: "stable_at (growing_page 2) 0 2" by (simp add: growing_stable)
  have run: "scroll_loop (growing_page 2) 0 0 = Some (Inr 3, 6000)"
    using scroll_loop_growing [of 2] by (simp add: eval_nat_numeral)
  from scroll_loop_stops_iff_stable [of "growing_page 2" 0 5] st
  have "\<exists>q t. scroll_loop (growing_page 2) 0 5 = Some (Inr q, t)" by blast
  moreover from scroll_loop_stops_iff_stable [of "growing_page 2" 0 0] run
  have "loop_post (growing_page 2) 0 0 (Inr 3, 6000)" by blast
  ultimately show ?thesis using st by blast
qed

section \<open>The pattern and its matcher\<close>

lemma split_at_class:
  assumes "list_all P xs" "ys = [] \<or> \<not> P (hd ys)"
  shows "takeWhile P (xs @ ys) = xs" "dropWhile P (xs @ ys) = ys"
proof -
  have all: "\<forall>x\<in>set xs. P x" using assms(1) by (simp add: list_all_iff)
  have "takeWhile P ys = []" using assms(2) by (simp add: takeWhile_eq_Nil_iff)
  then show "takeWhile P (xs @ ys) = xs" using all by simp
  have "dropWhile P ys = ys" using assms(2) by (cases ys) auto
  then show "dropWhile P (xs @ ys) = ys" using all by simp
qed

lemma kmb_not_num: "kmb_char c \<Longrightarrow> \<not> num_char c"
  by (auto simp: kmb_char_def num_char_def is_digit_def)

lemma white_not_num: "white_space c \<Longrightarrow> \<not> num_char c"
  by (auto simp: white_space_def num_char_def is_digit_def)

lemma white_not_kmb: "white_space c \<Longrightarrow> \<not> kmb_char c"
  by (auto simp: white_space_def kmb_char_def)

lemma upper_cu_V: "upper_cu c = 86 \<Longrightarrow> c = 86 \<or> c = 118"
  by (auto simp: upper_cu_def split: if_splits)

lemma view_word_hd:
  assumes "map upper_cu word = js ''VIEW'' \<or> map upper_cu word = js ''VIEWS''"
  shows "word \<noteq> []" "\<not> num_char (hd word)" "\<not> kmb_char (hd word)" "\<not> white_space (hd word)"
proof -
  from assms obtain c cs where w: "word = c # cs" and "upper_cu c = 86"
    by (cases word) (auto simp: js_def)
  then have c: "c = 86 \<or> c = 118" using upper_cu_V by blast
  show "word \<noteq> []" using w by simp
  show "\<not> num_char (hd word)" using w c by (auto simp: num_char_def is_digit_def)
  show "\<not> kmb_char (hd word)" using w c by (auto simp: kmb_char_def)
  show "\<not> white_space (hd word)" using w c by (auto simp: white_space_def)
qed

lemma viewsMatch_complete:
  assumes "views_pattern s g"
  shows "viewsMatch s = Some g"
proof -
  from assms obtain num suf ws word where
    s: "s = num @ suf @ ws @ word" and g: "g = num @ suf" and num: "num \<noteq> []" "list_all num_char num"
    and suf: "suf = [] \<or> (\<exists>c. suf = [c] \<and> kmb_char c)" and ws: "list_all white_space ws"
    and word: "map upper_cu word = js ''VIEW'' \<or> map upper_cu word = js ''VIEWS''"
    unfolding views_pattern_def by blast
  note wd = view_word_hd [OF word]
  have hd_tail: "ws @ word \<noteq> []" "\<not> num_char (hd (ws @ word))" "\<not> kmb_char (hd (ws @ word))"
    using wd ws white_not_num white_not_kmb by (cases ws; simp)+
  have hd_rest: "\<not> num_char (hd (suf @ ws @ word))"
    using suf hd_tail kmb_not_num by auto
  have tw: "takeWhile num_char s = num" and dw: "dropWhile num_char s = suf @ ws @ word"
    unfolding s using split_at_class [OF num(2), of "suf @ ws @ word"] hd_rest by simp_all
  have sufc: "(case suf @ ws @ word of [] \<Rightarrow> [] | c # cs \<Rightarrow> if kmb_char c then [c] else []) = suf"
  proof (cases "suf = []")
    case True
    with hd_tail show ?thesis by (cases "ws @ word") auto
  next
    case False
    with suf show ?thesis by auto
  qed
  have dww: "dropWhile white_space (ws @ word) = word"
    using split_at_class(2) [OF ws, of word] wd by simp
  show ?thesis
    unfolding viewsMatch_def Let_def tw dw sufc using num(1) word dww g by simp
qed

lemma viewsMatch_sound:
  assumes "viewsMatch s = Some g"
  shows "views_pattern s g"
proof -
  define num where "num = takeWhile num_char s"
  define r1 where "r1 = dropWhile num_char s"
  define suf where "suf = (case r1 of [] \<Rightarrow> [] | c # cs \<Rightarrow> if kmb_char c then [c] else [])"
  define ws where "ws = takeWhile white_space (drop (length suf) r1)"
  define word where "word = dropWhile white_space (drop (length suf) r1)"
  from assms have ok: "num \<noteq> []" "map upper_cu word = js ''VIEW'' \<or> map upper_cu word = js ''VIEWS''"
    and g: "g = num @ suf"
    unfolding viewsMatch_def Let_def num_def r1_def suf_def word_def
    by (auto split: if_splits)
  have "s = num @ r1" by (simp add: num_def r1_def)
  moreover have "r1 = suf @ drop (length suf) r1"
    unfolding suf_def by (cases r1) auto
  moreover have "drop (length suf) r1 = ws @ word" by (simp add: ws_def word_def)
  ultimately have s: "s = num @ suf @ ws @ word" by simp
  have "list_all num_char num" unfolding num_def list_all_iff by (auto dest: set_takeWhileD)
  moreover have "list_all white_space ws" unfolding ws_def list_all_iff by (auto dest: set_takeWhileD)
  moreover have "suf = [] \<or> (\<exists>c. suf = [c] \<and> kmb_char c)"
    unfolding suf_def by (cases r1) auto
  ultimately show ?thesis unfolding views_pattern_def using s g ok by blast
qed

text \<open>The matcher decides the pattern and returns its capture group.\<close>

lemma viewsMatch_iff_pattern: "viewsMatch s = Some g \<longleftrightarrow> views_pattern s g"
  using viewsMatch_sound viewsMatch_complete by blast

lemma viewsMatch_None_iff: "viewsMatch s = None \<longleftrightarrow> (\<nexists>g. views_pattern s g)"
  using viewsMatch_iff_pattern [of s] by (cases "viewsMatch s") auto

lemma normalize_views_no_match: "(\<nexists>g. views_pattern s g) \<Longrightarrow> normalize_views s = Fin 0"
  using viewsMatch_None_iff [of s] by (simp add: normalize_views_def)

section \<open>Rounding to a double\<close>

lemma bitlen_nat_0 [simp]: "bitlen_nat 0 = 0"
  by (simp add: bitlen_nat.simps)

lemma bitlen_nat_pos: "0 < n \<Longrightarrow> bitlen_nat n = Suc (bitlen_nat (n div 2))"
  by (subst bitlen_nat.simps) simp

lemma bitlen_nat_1 [simp]: "bitlen_nat (Suc 0) = Suc 0"
  by (simp add: bitlen_nat_pos)

lemma bitlen_nat_gt0: "0 < n \<Longrightarrow> 0 < bitlen_nat n"
  by (simp add: bitlen_nat_pos)

lemma bitlen_nat_le: "n < 2 ^ k \<Longrightarrow> bitlen_nat n \<le> k"
proof (induction k arbitrary: n)
  case 0
  then show ?case by simp
next
  case (Suc k)
  show ?case
  proof (cases "n = 0")
    case True
    then show ?thesis by simp
  next
    case False
    from Suc.prems have "n div 2 < 2 ^ k" by simp
    from Suc.IH [OF this] False show ?thesis by (simp add: bitlen_nat_pos)
  qed
qed

lemma bitlen_nat_lower: "0 < n \<Longrightarrow> 2 ^ (bitlen_nat n - 1) \<le> n"
proof (induction n rule: bitlen_nat.induct)
  case (1 n)
  show ?case
  proof (cases "n div 2 = 0")
    case True
    with 1(2) show ?thesis by (simp add: bitlen_nat_pos)
  next
    case False
    then have pos: "0 < n div 2" by simp
    with 1 have ih: "2 ^ (bitlen_nat (n div 2) - 1) \<le> n div 2" by simp
    have "bitlen_nat n - 1 = Suc (bitlen_nat (n div 2) - 1)"
      using 1(2) bitlen_nat_gt0 [OF pos] by (simp add: bitlen_nat_pos)
    then have "(2::nat) ^ (bitlen_nat n - 1) = 2 * 2 ^ (bitlen_nat (n div 2) - 1)" by simp
    also have "\<dots> \<le> 2 * (n div 2)" using ih by simp
    also have "\<dots> \<le> n" by simp
    finally show ?thesis .
  qed
qed

lemma bitlen_nat_double: "0 < n \<Longrightarrow> bitlen_nat (2 * n) = Suc (bitlen_nat n)"
  by (subst bitlen_nat.simps) simp

lemma bitlen_nat_shift: "0 < n \<Longrightarrow> bitlen_nat (n * 2 ^ j) = bitlen_nat n + j"
proof (induction j)
  case 0
  then show ?case by simp
next
  case (Suc j)
  have "n * 2 ^ Suc j = 2 * (n * 2 ^ j)" by simp
  moreover have "0 < n * 2 ^ j" using Suc.prems by simp
  ultimately have "bitlen_nat (n * 2 ^ Suc j) = Suc (bitlen_nat (n * 2 ^ j))"
    by (simp only: bitlen_nat_double)
  then show ?case using Suc by simp
qed

lemma round_div_even_1 [simp]: "round_div_even n (Suc 0) = n"
  by (simp add: round_div_even_def)

lemma ilog2_nat: "0 < n \<Longrightarrow> ilog2 n (Suc 0) = int (bitlen_nat n) - 1"
  using bitlen_nat_lower [of n] bitlen_nat_gt0 [of n]
  by (simp add: ilog2_def Let_def nat_diff_distrib')

text \<open>A natural number below \<open>2^53\<close> is a double.\<close>

lemma round_double_small:
  assumes "0 < n" "n < 2 ^ 53"
  shows "round_double n (Suc 0) = Fin (of_nat n)"
proof -
  let ?b = "bitlen_nat n"
  have b: "0 < ?b" "?b \<le> 53" using assms bitlen_nat_gt0 bitlen_nat_le by auto
  define j where "j = 53 - ?b"
  have e: "max (ilog2 n (Suc 0) - 52) (- 1074) = - int j"
    using b by (simp add: ilog2_nat [OF assms(1)] j_def)
  show ?thesis
  proof (cases "j = 0")
    case True
    with e b show ?thesis using assms(1) by (simp add: round_double_def pow2_def j_def)
  next
    case False
    have bl: "bitlen_nat (n * 2 ^ j) = ?b + j" by (rule bitlen_nat_shift [OF assms(1)])
    have "(of_nat (n * 2 ^ j) :: rat) * (1 / 2 ^ j) = of_nat n" by simp
    with False e bl b show ?thesis using assms(1)
      by (simp add: round_double_def pow2_def Let_def del: of_nat_mult)
  qed
qed

text \<open>Rounding a natural number gives a natural number or \<^verbatim>\<open>+Infinity\<close>.\<close>

lemma round_double_nat_cases:
  "round_double n (Suc 0) = PosInf \<or> (\<exists>k. round_double n (Suc 0) = Fin (of_nat k))"
proof (cases "n = 0")
  case True
  then show ?thesis by (auto simp: round_double_def intro: exI [of _ 0])
next
  case False
  define e where "e = max (ilog2 n (Suc 0) - 52) (- 1074)"
  show ?thesis
  proof (cases "0 \<le> e")
    case True
    have "(of_nat (round_div_even n (2 ^ nat e)) :: rat) * 2 ^ nat e =
          of_nat (round_div_even n (2 ^ nat e) * 2 ^ nat e)"
      by simp
    with True False show ?thesis
      unfolding round_double_def Let_def e_def [symmetric] pow2_def
      by (auto simp del: of_nat_mult of_nat_power)
  next
    case neg: False
    have "(of_nat (n * 2 ^ nat (- e)) :: rat) * (1 / 2 ^ nat (- e)) = of_nat n" by simp
    with neg False show ?thesis
      unfolding round_double_def Let_def e_def [symmetric] pow2_def
      by (auto simp del: of_nat_mult of_nat_power)
  qed
qed

lemma quotient_of_divide:
  assumes "0 < b"
  shows "quotient_of (of_int a / of_int b) = (a div gcd a b, b div gcd a b)"
proof -
  have "quotient_of (Fract a b) = Rat.normalize (a, b)" by (rule quotient_of_Fract)
  then show ?thesis using assms by (simp add: Fract_of_int_quotient Rat.normalize_def Let_def)
qed

lemma nonneg_integer_of_nat: "nonneg_integer (Fin (of_nat k))"
  using quotient_of_divide [of 1 "int k"] by (simp add: nonneg_integer_def)

lemma times_double_Fin:
  assumes "0 < b" "coprime a b" "0 \<le> a"
  shows "times_double (Fin (of_int a / of_int b)) k = round_double (nat a * k) (nat b)"
  using assms quotient_of_divide [of b a] by (simp add: times_double_def)

lemma times_double_nat: "times_double (Fin (of_nat n)) k = round_double (n * k) (Suc 0)"
  using times_double_Fin [of 1 "int n" k] by simp

section \<open>Bounds on rounding\<close>

lemma bitlen_nat_upper: "n < 2 ^ bitlen_nat n"
proof (induction n rule: bitlen_nat.induct)
  case (1 n)
  show ?case
  proof (cases "n = 0")
    case True
    then show ?thesis by simp
  next
    case False
    with 1 have "n div 2 < 2 ^ bitlen_nat (n div 2)" by simp
    then have "n < 2 * 2 ^ bitlen_nat (n div 2)" by linarith
    with False show ?thesis by (simp add: bitlen_nat_pos)
  qed
qed

lemma bitlen_nat_mono: "m \<le> n \<Longrightarrow> bitlen_nat m \<le> bitlen_nat n"
  using bitlen_nat_upper [of n] by (intro bitlen_nat_le) simp

lemma round_div_even_lower: "a * d \<le> n \<Longrightarrow> 0 < d \<Longrightarrow> a \<le> round_div_even n d"
proof -
  assume a: "a * d \<le> n" and d: "0 < d"
  then have "a \<le> n div d" by (simp add: less_eq_div_iff_mult_less_eq)
  then show ?thesis by (simp add: round_div_even_def Let_def)
qed

lemma round_div_even_upper: "n \<le> b * d \<Longrightarrow> 0 < d \<Longrightarrow> round_div_even n d \<le> b"
proof -
  assume n: "n \<le> b * d" and d: "0 < d"
  show ?thesis
  proof (cases "n = b * d")
    case True
    with d show ?thesis by (simp add: round_div_even_def Let_def)
  next
    case False
    with n have "n < b * d" by simp
    then have "n div d < b" using d by (simp add: div_less_iff_less_mult)
    then show ?thesis by (simp add: round_div_even_def Let_def)
  qed
qed

text \<open>\<open>ilog2 n d\<close> is the binary logarithm of the quotient, from below.\<close>

lemma ilog2_lower:
  assumes "0 < d" "0 \<le> ilog2 n d"
  shows "d * 2 ^ nat (ilog2 n d) \<le> n"
proof -
  define a where "a = bitlen_nat n"
  define b where "b = bitlen_nat d"
  define k where "k = int a - int b"
  define t where "t \<longleftrightarrow> (if 0 \<le> k then d * 2 ^ nat k \<le> n else d \<le> n * 2 ^ nat (- k))"
  have il: "ilog2 n d = (if t then k else k - 1)"
    by (simp only: ilog2_def Let_def k_def a_def b_def t_def)
  show ?thesis
  proof (cases t)
    case True
    then have L: "ilog2 n d = k" by (simp add: il)
    with assms(2) True show ?thesis by (simp add: t_def)
  next
    case False
    then have L: "ilog2 n d = k - 1" by (simp add: il)
    with assms(2) have k1: "1 \<le> k" by simp
    then have ab: "b + 1 \<le> a" by (simp add: k_def)
    then have "0 < a" by simp
    then have npos: "0 < n" unfolding a_def by (cases "n = 0") simp_all
    have "nat (k - 1) = a - b - 1" using ab by (simp add: k_def)
    then have "d * 2 ^ nat (ilog2 n d) = d * 2 ^ (a - b - 1)" by (simp add: L)
    also have "\<dots> \<le> 2 ^ b * 2 ^ (a - b - 1)"
      using bitlen_nat_upper [of d] by (simp add: b_def)
    also have "\<dots> = 2 ^ (a - 1)" using ab by (simp add: power_add [symmetric])
    also have "\<dots> \<le> n" using bitlen_nat_lower [OF npos] by (simp add: a_def)
    finally show ?thesis .
  qed
qed

lemma ilog2_nonneg:
  assumes "0 < d" "d \<le> n"
  shows "0 \<le> ilog2 n d"
proof -
  define k where "k = int (bitlen_nat n) - int (bitlen_nat d)"
  have k0: "0 \<le> k" using bitlen_nat_mono [OF assms(2)] by (simp add: k_def)
  show ?thesis
  proof (cases "d * 2 ^ nat k \<le> n")
    case True
    with k0 show ?thesis by (simp add: ilog2_def Let_def k_def)
  next
    case False
    with assms(2) have "k \<noteq> 0" by (auto simp: k_def)
    with k0 have "1 \<le> k" by simp
    with False k0 show ?thesis by (simp add: ilog2_def Let_def k_def)
  qed
qed

lemma round_double_cases:
  "round_double n d = PosInf \<or> (\<exists>v. round_double n d = Fin v \<and> 0 \<le> v)"
  by (simp add: round_double_def Let_def pow2_def)

text \<open>A quotient of at least one is rounded to at least one.\<close>

lemma round_double_lower:
  assumes "0 < d" "d \<le> n"
  shows "round_double n d = PosInf \<or> (\<exists>v. round_double n d = Fin v \<and> 1 \<le> v)"
proof -
  define L where "L = nat (ilog2 n d)"
  have Lpos: "0 \<le> ilog2 n d" by (rule ilog2_nonneg [OF assms])
  then have iL: "ilog2 n d = int L" by (simp add: L_def)
  have low: "d * 2 ^ L \<le> n" using ilog2_lower [OF assms(1) Lpos] by (simp add: L_def)
  have npos: "n \<noteq> 0" using assms by simp
  have e: "max (ilog2 n d - 52) (- 1074) = int L - 52" by (simp add: iL)
  show ?thesis
  proof (cases "52 \<le> L")
    case True
    define j where "j = L - 52"
    have ej: "int L - 52 = int j" "nat (int j) = j" using True by (simp_all add: j_def)
    define m where "m = round_div_even n (d * 2 ^ j)"
    have "L = 52 + j" using True by (simp add: j_def)
    then have "2 ^ 52 * (d * 2 ^ j) = d * 2 ^ L" by (simp only: power_add mult_ac)
    with low have "2 ^ 52 * (d * 2 ^ j) \<le> n" by (simp only:)
    from round_div_even_lower [OF this] assms(1) have m52: "2 ^ 52 \<le> m" by (simp add: m_def)
    then have "1 \<le> m" by (meson one_le_numeral one_le_power order_trans)
    then have "(1::rat) \<le> of_nat m" by simp
    moreover have "(1::rat) \<le> 2 ^ j" by simp
    ultimately have v: "(1::rat) \<le> of_nat m * 2 ^ j" by (metis mult_mono' mult_1 zero_le_one)
    show ?thesis
      unfolding round_double_def Let_def e ej using npos v
      by (simp add: pow2_def m_def [symmetric])
  next
    case False
    define j where "j = 52 - L"
    have jpos: "0 < j" using False by (simp add: j_def)
    have ej: "int L - 52 = - int j" "nat (int j) = j" using False by (simp_all add: j_def)
    define m where "m = round_div_even (n * 2 ^ j) d"
    have "52 = L + j" using False by (simp add: j_def)
    then have "(2::nat) ^ 52 = 2 ^ L * 2 ^ j" by (simp only: power_add)
    then have "2 ^ 52 * d = d * 2 ^ L * 2 ^ j" by (simp only: mult_ac)
    also have "\<dots> \<le> n * 2 ^ j" using low by simp
    finally have "2 ^ 52 * d \<le> n * 2 ^ j" .
    from round_div_even_lower [OF this assms(1)] have m52: "2 ^ 52 \<le> m" by (simp add: m_def)
    have "(2::nat) ^ j \<le> 2 ^ 52" by (rule power_increasing) (simp_all add: j_def)
    with m52 have "2 ^ j \<le> m" by simp
    then have "(2::rat) ^ j \<le> of_nat m" by (metis of_nat_le_iff of_nat_numeral of_nat_power)
    then have v: "(1::rat) \<le> of_nat m * (1 / 2 ^ j)" by (simp add: le_divide_eq)
    show ?thesis
      unfolding round_double_def Let_def e ej using npos v jpos
      by (simp add: pow2_def m_def [symmetric])
  qed
qed

text \<open>A quotient below \<open>2^b\<close>, with \<open>b\<close> up to 1023, is rounded to a finite double.\<close>

lemma round_double_upper:
  assumes "0 < d" "n < d * 2 ^ b" "b \<le> 1023"
  shows "\<exists>v. round_double n d = Fin v \<and> 0 \<le> v \<and> v \<le> 2 ^ b"
proof (cases "n = 0")
  case True
  then show ?thesis by (simp add: round_double_def)
next
  case npos: False
  define e where "e = max (ilog2 n d - 52) (- 1074)"
  show ?thesis
  proof (cases "0 \<le> e")
    case True
    define j where "j = nat e"
    have ej: "e = int j" using True by (simp add: j_def)
    have eL: "e = ilog2 n d - 52" using True by (simp add: e_def max_def split: if_splits)
    then have Lpos: "0 \<le> ilog2 n d" using True by simp
    define L where "L = nat (ilog2 n d)"
    have Lj: "L = j + 52" using eL ej Lpos by (simp add: L_def)
    have "d * 2 ^ L \<le> n" using ilog2_lower [OF assms(1) Lpos] by (simp add: L_def)
    then have "d * 2 ^ L < d * 2 ^ b" using assms(2) by (rule le_less_trans)
    then have "(2::nat) ^ L < 2 ^ b" using assms(1) by simp
    then have "L < b" by simp
    then have jb: "j \<le> b" using Lj by simp
    define m where "m = round_div_even n (d * 2 ^ j)"
    have "2 ^ (b - j) * (d * 2 ^ j) = d * 2 ^ b"
      using jb by (simp add: power_add [symmetric])
    with assms(2) have "n \<le> 2 ^ (b - j) * (d * 2 ^ j)" by (simp only: less_imp_le)
    from round_div_even_upper [OF this] assms(1) have mb: "m \<le> 2 ^ (b - j)" by (simp add: m_def)
    then have "m < 2 ^ Suc (b - j)" by (simp add: le_less_trans)
    then have "bitlen_nat m \<le> Suc (b - j)" by (rule bitlen_nat_le)
    then have fin: "\<not> 1024 < int (bitlen_nat m) + int j" using jb assms(3) by simp
    have "(of_nat m :: rat) \<le> 2 ^ (b - j)" using mb by (metis of_nat_le_iff of_nat_numeral of_nat_power)
    then have "(of_nat m :: rat) * 2 ^ j \<le> 2 ^ (b - j) * 2 ^ j" by simp
    also have "\<dots> = 2 ^ b" using jb by (simp add: power_add [symmetric])
    finally have v: "(of_nat m :: rat) * 2 ^ j \<le> 2 ^ b" .
    show ?thesis
      unfolding round_double_def Let_def e_def [symmetric] ej using npos fin v
      by (simp add: pow2_def m_def [symmetric])
  next
    case False
    define j where "j = nat (- e)"
    have jpos: "0 < j" using False by (simp add: j_def)
    have ej: "e = - int j" using False by (simp add: j_def)
    define m where "m = round_div_even (n * 2 ^ j) d"
    have "n * 2 ^ j \<le> d * 2 ^ b * 2 ^ j" using assms(2) by simp
    also have "\<dots> = 2 ^ (b + j) * d" by (simp add: power_add)
    finally have "n * 2 ^ j \<le> 2 ^ (b + j) * d" .
    from round_div_even_upper [OF this assms(1)] have mb: "m \<le> 2 ^ (b + j)" by (simp add: m_def)
    then have "m < 2 ^ Suc (b + j)" by (simp add: le_less_trans)
    then have "bitlen_nat m \<le> Suc (b + j)" by (rule bitlen_nat_le)
    then have fin: "\<not> 1024 < int (bitlen_nat m) - int j" using assms(3) by simp
    have "(of_nat m :: rat) \<le> 2 ^ (b + j)" using mb by (metis of_nat_le_iff of_nat_numeral of_nat_power)
    then have v: "(of_nat m :: rat) * (1 / 2 ^ j) \<le> 2 ^ b"
      by (simp add: power_add divide_le_eq)
    show ?thesis
      unfolding round_double_def Let_def e_def [symmetric] ej using npos fin v jpos
      by (simp add: pow2_def m_def [symmetric])
  qed
qed

section \<open>Bounds on the product and on the parsed numbers\<close>

lemma times_double_cases:
  assumes "x = PosInf \<or> (\<exists>v. x = Fin v \<and> 0 \<le> v)"
  shows "times_double x k = PosInf \<or> (\<exists>u. times_double x k = Fin u \<and> 0 \<le> u)"
proof (cases x)
  case NaN
  with assms show ?thesis by simp
next
  case PosInf
  then show ?thesis by (simp add: times_double_def)
next
  case (Fin v)
  obtain a c where "quotient_of v = (a, c)" by (cases "quotient_of v")
  with Fin have "times_double x k = round_double (nat a * k) (nat c)"
    by (simp add: times_double_def)
  then show ?thesis using round_double_cases [of "nat a * k" "nat c"] by simp
qed

lemma times_double_lower:
  assumes "1 \<le> v" "0 < k"
  shows "times_double (Fin v) k = PosInf \<or> (\<exists>u. times_double (Fin v) k = Fin u \<and> 1 \<le> u)"
proof -
  obtain a c where q: "quotient_of v = (a, c)" by (cases "quotient_of v")
  have c: "0 < c" by (rule quotient_of_denom_pos [OF q])
  have v: "v = of_int a / of_int c" by (rule quotient_of_div [OF q])
  from assms(1) c have "(of_int c :: rat) \<le> of_int a" by (simp add: v le_divide_eq)
  then have ca: "c \<le> a" by (simp only: of_int_le_iff)
  then have "nat c \<le> nat a" by simp
  also have "\<dots> \<le> nat a * k" using assms(2) by simp
  finally have "nat c \<le> nat a * k" .
  moreover have "0 < nat c" using c by simp
  ultimately show ?thesis
    using round_double_lower [of "nat c" "nat a * k"] by (simp add: times_double_def q)
qed

lemma times_double_upper:
  assumes "0 \<le> v" "v \<le> 2 ^ b" "k < 2 ^ c" "b + c \<le> 1023"
  shows "\<exists>u. times_double (Fin v) k = Fin u \<and> 0 \<le> u"
proof -
  obtain a d where q: "quotient_of v = (a, d)" by (cases "quotient_of v")
  have d: "0 < d" by (rule quotient_of_denom_pos [OF q])
  have v: "v = of_int a / of_int d" by (rule quotient_of_div [OF q])
  from assms(1) d have "(0::rat) \<le> of_int a" by (simp add: v zero_le_divide_iff)
  then have a0: "0 \<le> a" by simp
  from assms(2) d have "(of_int a :: rat) \<le> 2 ^ b * of_int d" by (simp add: v divide_le_eq)
  also have "\<dots> = of_int (2 ^ b * d)" by simp
  finally have "a \<le> 2 ^ b * d" by (simp only: of_int_le_iff)
  then have "nat a \<le> nat (2 ^ b * d)" by simp
  also have "\<dots> = 2 ^ b * nat d" by (simp add: nat_mult_distrib nat_power_eq)
  finally have ab: "nat a \<le> nat d * 2 ^ b" by (simp add: mult.commute)
  have dpos: "0 < nat d * 2 ^ b" using d by simp
  have "nat a * k \<le> nat d * 2 ^ b * k" using ab by simp
  also have "\<dots> < nat d * 2 ^ b * 2 ^ c" using assms(3) dpos by simp
  also have "\<dots> = nat d * 2 ^ (b + c)" by (simp add: power_add)
  finally have "nat a * k < nat d * 2 ^ (b + c)" .
  moreover have "0 < nat d" using d by simp
  ultimately obtain u where "round_double (nat a * k) (nat d) = Fin u" "0 \<le> u"
    using round_double_upper [of "nat d" "nat a * k" "b + c"] assms(4) by blast
  then show ?thesis by (simp add: times_double_def q)
qed

subsection \<open>Digit strings\<close>

lemma foldl_digits:
  "foldl (\<lambda>acc c. 10 * acc + (c - 48)) a ds =
     a * 10 ^ length ds + foldl (\<lambda>acc c. 10 * acc + (c - 48)) (0::nat) ds"
proof (induction ds arbitrary: a)
  case Nil
  show ?case by simp
next
  case (Cons c ds)
  let ?f = "\<lambda>acc c. 10 * acc + (c - 48)"
  have "foldl ?f a (c # ds) = foldl ?f (10 * a + (c - 48)) ds" by simp
  also have "\<dots> = (10 * a + (c - 48)) * 10 ^ length ds + foldl ?f 0 ds" by (rule Cons.IH)
  also have "\<dots> = a * 10 ^ length (c # ds) + ((c - 48) * 10 ^ length ds + foldl ?f 0 ds)"
    by (simp add: algebra_simps)
  also have "(c - 48) * 10 ^ length ds + foldl ?f 0 ds = foldl ?f (c - 48) ds"
    by (rule Cons.IH [symmetric])
  also have "foldl ?f (c - 48) ds = foldl ?f 0 (c # ds)" by simp
  finally show ?case .
qed

lemma digits_value_append:
  "digits_value (xs @ ys) = digits_value xs * 10 ^ length ys + digits_value ys"
  unfolding digits_value_def foldl_append by (rule foldl_digits)

lemma digits_value_Cons: "digits_value (c # ds) = (c - 48) * 10 ^ length ds + digits_value ds"
  using digits_value_append [of "[c]" ds] by (simp add: digits_value_def)

lemma digits_value_less: "list_all is_digit ds \<Longrightarrow> digits_value ds < 10 ^ length ds"
proof (induction ds)
  case Nil
  show ?case by (simp add: digits_value_def)
next
  case (Cons c ds)
  then have ih: "digits_value ds < 10 ^ length ds" and c: "c - 48 \<le> 9"
    by (auto simp: is_digit_def)
  have "(c - 48) * 10 ^ length ds + digits_value ds < (c - 48) * 10 ^ length ds + 10 ^ length ds"
    using ih by simp
  also have "\<dots> = (c - 48 + 1) * 10 ^ length ds" by (simp add: algebra_simps)
  also have "\<dots> \<le> 10 * 10 ^ length ds" using c by (intro mult_right_mono) simp_all
  finally show ?case by (simp add: digits_value_Cons)
qed

lemma digits_value_leading: "49 \<le> c \<Longrightarrow> 10 ^ length ds \<le> digits_value (c # ds)"
proof -
  assume "49 \<le> c"
  then have "1 \<le> c - 48" by simp
  then have "(10::nat) ^ length ds \<le> (c - 48) * 10 ^ length ds" by simp
  then show ?thesis unfolding digits_value_Cons by (rule trans_le_add1)
qed

lemma ten_290: "(10::nat) ^ 290 < 2 ^ 964"
  by simp

text \<open>
  A string that starts with a digit is read by \<^verbatim>\<open>parseFloat\<close> as its leading decimal
  literal: never \<^verbatim>\<open>NaN\<close>, finite for up to 290 characters, and at least 1 when the
  first digit is not 0.
\<close>

lemma parseFloat_digits:
  assumes "is_digit c"
  shows "\<exists>ip fp. parseFloat (c # rest) = round_double (digits_value (c # ip @ fp)) (10 ^ length fp)
     \<and> list_all is_digit ip \<and> list_all is_digit fp \<and> length ip \<le> length rest"
proof -
  define ip where "ip = takeWhile is_digit rest"
  define fp where "fp = (case dropWhile is_digit rest of [] \<Rightarrow> []
      | x # xs \<Rightarrow> if x = 46 then takeWhile is_digit xs else [])"
  have "parseFloat (c # rest) = round_double (digits_value (c # ip @ fp)) (10 ^ length fp)"
    using assms by (simp add: parseFloat_def Let_def ip_def fp_def)
  moreover have "list_all is_digit ip"
    unfolding ip_def list_all_iff by (auto dest: set_takeWhileD)
  moreover have "list_all is_digit fp"
    unfolding fp_def list_all_iff by (auto dest: set_takeWhileD split: list.splits)
  moreover have "length ip \<le> length rest" unfolding ip_def by (rule length_takeWhile_le)
  ultimately show ?thesis by blast
qed

lemma parseFloat_cases:
  assumes "is_digit c"
  shows "parseFloat (c # rest) = PosInf \<or> (\<exists>q. parseFloat (c # rest) = Fin q \<and> 0 \<le> q)"
  using parseFloat_digits [OF assms, of rest] round_double_cases by metis

lemma parseFloat_bounds:
  assumes "is_digit c" "length (c # rest) \<le> 290"
  shows "\<exists>q. parseFloat (c # rest) = Fin q \<and> 0 \<le> q \<and> q \<le> 2 ^ 964 \<and> (49 \<le> c \<longrightarrow> 1 \<le> q)"
proof -
  from parseFloat_digits [OF assms(1), of rest] obtain ip fp where
    pf: "parseFloat (c # rest) = round_double (digits_value (c # ip @ fp)) (10 ^ length fp)"
    and dig: "list_all is_digit ip" "list_all is_digit fp" and len: "length ip \<le> length rest"
    by blast
  define n where "n = digits_value (c # ip @ fp)"
  define d where "d = (10::nat) ^ length fp"
  have dpos: "0 < d" by (simp add: d_def)
  have "list_all is_digit (c # ip @ fp)" using assms(1) dig by simp
  from digits_value_less [OF this] have "n < 10 ^ (Suc (length ip) + length fp)"
    by (simp add: n_def)
  also have "\<dots> = d * 10 ^ Suc (length ip)" by (simp add: d_def power_add)
  also have "\<dots> \<le> d * 10 ^ 290"
    using len assms(2) by (intro mult_left_mono power_increasing) simp_all
  also have "\<dots> < d * 2 ^ 964" using ten_290 dpos by simp
  finally have up: "n < d * 2 ^ 964" .
  from round_double_upper [OF dpos up] obtain q where
    q: "round_double n d = Fin q" "0 \<le> q" "q \<le> 2 ^ 964" by auto
  have "1 \<le> q" if "49 \<le> c"
  proof -
    have "d \<le> 10 ^ length (ip @ fp)" by (simp add: d_def power_add)
    also have "\<dots> \<le> n" unfolding n_def by (rule digits_value_leading [OF that])
    finally have "d \<le> n" .
    from round_double_lower [OF dpos this] q(1) show ?thesis by simp
  qed
  with q show ?thesis by (simp add: pf n_def d_def)
qed

lemma parseInt_digits:
  assumes "is_digit c"
  shows "\<exists>ip. parseInt (c # rest) = round_double (digits_value (c # ip)) (Suc 0)
     \<and> list_all is_digit ip \<and> length ip \<le> length rest"
proof -
  define ip where "ip = takeWhile is_digit rest"
  have "parseInt (c # rest) = round_double (digits_value (c # ip)) (Suc 0)"
    using assms by (simp add: parseInt_def Let_def ip_def)
  moreover have "list_all is_digit ip"
    unfolding ip_def list_all_iff by (auto dest: set_takeWhileD)
  moreover have "length ip \<le> length rest" unfolding ip_def by (rule length_takeWhile_le)
  ultimately show ?thesis by blast
qed

lemma parseInt_cases:
  assumes "is_digit c"
  shows "parseInt (c # rest) = PosInf \<or> (\<exists>q. parseInt (c # rest) = Fin q \<and> 0 \<le> q)"
  using parseInt_digits [OF assms, of rest] round_double_cases by metis

lemma parseInt_bounds:
  assumes "is_digit c" "length (c # rest) \<le> 290"
  shows "\<exists>q. parseInt (c # rest) = Fin q \<and> 0 \<le> q \<and> (49 \<le> c \<longrightarrow> 1 \<le> q)"
proof -
  from parseInt_digits [OF assms(1), of rest] obtain ip where
    pf: "parseInt (c # rest) = round_double (digits_value (c # ip)) (Suc 0)"
    and dig: "list_all is_digit ip" and len: "length ip \<le> length rest"
    by blast
  define n where "n = digits_value (c # ip)"
  have "list_all is_digit (c # ip)" using assms(1) dig by simp
  from digits_value_less [OF this] have "n < 10 ^ Suc (length ip)" by (simp add: n_def)
  also have "\<dots> \<le> 10 ^ 290" using len assms(2) by (intro power_increasing) simp_all
  also have "\<dots> < 2 ^ 964" by (rule ten_290)
  finally have "n < Suc 0 * 2 ^ 964" by simp
  from round_double_upper [OF _ this] obtain q where
    q: "round_double n (Suc 0) = Fin q" "0 \<le> q" by auto
  have "1 \<le> q" if "49 \<le> c"
  proof -
    have "(1::nat) \<le> 10 ^ length ip" by simp
    also have "\<dots> \<le> n" unfolding n_def by (rule digits_value_leading [OF that])
    finally have "Suc 0 \<le> n" by simp
    from round_double_lower [OF _ this] q(1) show ?thesis by simp
  qed
  with q show ?thesis by (simp add: pf n_def)
qed

section \<open>The normalizer on a matching text\<close>

lemma kmb_char_iff: "kmb_char c \<longleftrightarrow> upper_cu c = 75 \<or> upper_cu c = 77 \<or> upper_cu c = 66"
  by (auto simp: kmb_char_def upper_cu_def)

lemma num_char_upper: "num_char c \<Longrightarrow> upper_cu c = c"
  by (auto simp: num_char_def is_digit_def upper_cu_def)

lemma num_char_not_letter: "num_char c \<Longrightarrow> c \<noteq> 75 \<and> c \<noteq> 77 \<and> c \<noteq> 66"
  by (auto simp: num_char_def is_digit_def)

lemma kmb_upper_not_comma: "kmb_char c \<Longrightarrow> upper_cu c \<noteq> 44"
  by (auto simp: kmb_char_iff)

lemma viewString_num:
  assumes "list_all num_char num"
  shows "strip_commas (toUpperCase num) = filter (\<lambda>c. c \<noteq> 44) num"
proof -
  have "map upper_cu num = num"
    using assms by (induction num) (simp_all add: num_char_upper)
  then show ?thesis by (simp add: strip_commas_def toUpperCase_def)
qed

lemma viewString_append:
  "strip_commas (toUpperCase (xs @ ys)) = strip_commas (toUpperCase xs) @ strip_commas (toUpperCase ys)"
  by (simp add: strip_commas_def toUpperCase_def)

lemma endsWith_num:
  assumes "list_all num_char num" "x = 75 \<or> x = 77 \<or> x = 66"
  shows "\<not> endsWith (filter (\<lambda>c. c \<noteq> 44) num) x"
proof
  assume "endsWith (filter (\<lambda>c. c \<noteq> 44) num) x"
  then have "x \<in> set (filter (\<lambda>c. c \<noteq> 44) num)"
    unfolding endsWith_def using last_in_set by blast
  then have "num_char x" using assms(1) by (auto simp: list_all_iff)
  with assms(2) show False using num_char_not_letter by blast
qed

text \<open>
  The string handed to \<^verbatim>\<open>parseFloat\<close> and \<^verbatim>\<open>parseInt\<close> holds digits, full stops and
  the letters K, M, B only, which is all that the two models above have to read.
\<close>

lemma viewString_alphabet:
  assumes "views_pattern s g" "c \<in> set (strip_commas (toUpperCase g))"
  shows "is_digit c \<or> c = 46 \<or> c = 75 \<or> c = 77 \<or> c = 66"
proof -
  from assms(1) obtain num suf where g: "g = num @ suf" and num: "list_all num_char num"
    and suf: "suf = [] \<or> (\<exists>k. suf = [k] \<and> kmb_char k)"
    unfolding views_pattern_def by blast
  from assms(2) obtain x where x: "x \<in> set g" "c = upper_cu x" "c \<noteq> 44"
    by (auto simp: strip_commas_def toUpperCase_def)
  from x(1) g consider "x \<in> set num" | "x \<in> set suf" by auto
  then show ?thesis
  proof cases
    case 1
    then have "num_char x" using num by (simp add: list_all_iff)
    then show ?thesis using x(2,3) num_char_upper [of x] by (auto simp: num_char_def)
  next
    case 2
    with suf have "kmb_char x" by auto
    then show ?thesis using x(2) by (simp add: kmb_char_iff)
  qed
qed

text \<open>
  On a match the branch taken is decided by the last character of the capture group:
  K, M or B in either case selects the multiplier, anything else \<^verbatim>\<open>parseInt\<close>.
\<close>

lemma normalize_views_match:
  assumes "views_pattern s g"
  shows "normalize_views s =
     (let viewString = strip_commas (toUpperCase g)
      in if upper_cu (last g) = 75 then times_double (parseFloat viewString) 1000
         else if upper_cu (last g) = 77 then times_double (parseFloat viewString) 1000000
         else if upper_cu (last g) = 66 then times_double (parseFloat viewString) 1000000000
         else parseInt viewString)"
proof -
  from assms obtain num suf where g: "g = num @ suf" and num: "num \<noteq> []" "list_all num_char num"
    and suf: "suf = [] \<or> (\<exists>c. suf = [c] \<and> kmb_char c)"
    unfolding views_pattern_def by blast
  have vm: "viewsMatch s = Some g" using assms by (simp add: viewsMatch_iff_pattern)
  let ?v = "strip_commas (toUpperCase g)"
  have ends: "endsWith ?v x \<longleftrightarrow> upper_cu (last g) = x" if x: "x = 75 \<or> x = 77 \<or> x = 66" for x
  proof (cases "suf = []")
    case True
    then have "g = num" using g by simp
    moreover have "num_char (last num)" using num by (simp add: list_all_iff)
    ultimately have "upper_cu (last g) \<noteq> x"
      using x num_char_upper [of "last num"] num_char_not_letter [of "last num"] by auto
    moreover have "\<not> endsWith ?v x"
      using endsWith_num [OF num(2) x] \<open>g = num\<close> by (simp add: viewString_num [OF num(2)])
    ultimately show ?thesis by simp
  next
    case False
    with suf obtain c where c: "suf = [c]" "kmb_char c" by blast
    have "?v = filter (\<lambda>c. c \<noteq> 44) num @ [upper_cu c]"
      unfolding g viewString_append viewString_num [OF num(2)] c(1)
      using kmb_upper_not_comma [OF c(2)] by (simp add: strip_commas_def toUpperCase_def)
    then show ?thesis using g c(1) by (simp add: endsWith_def)
  qed
  show ?thesis
    unfolding normalize_views_def vm option.case Let_def
    by (simp only: ends [of 75] ends [of 77] ends [of 66] simp_thms)
qed

text \<open>Without a suffix, a capture group that starts with a digit is parsed to a count.\<close>

lemma normalize_views_plain:
  assumes "views_pattern s g" "\<not> kmb_char (last g)" "is_digit (hd g)"
  shows "normalize_views s = round_double (plain_count g) (Suc 0)"
proof -
  from assms(1) obtain num suf where g: "g = num @ suf" and num: "num \<noteq> []" "list_all num_char num"
    and suf: "suf = [] \<or> (\<exists>c. suf = [c] \<and> kmb_char c)"
    unfolding views_pattern_def by blast
  have "suf = []" using suf g assms(2) by auto
  then have gn: "g = num" using g by simp
  obtain c cs where ccs: "num = c # cs" using num(1) by (cases num) auto
  with gn assms(3) have dig: "is_digit c" by simp
  have "c \<noteq> 44" using dig by (auto simp: is_digit_def)
  have "strip_commas (toUpperCase g) = filter (\<lambda>c. c \<noteq> 44) num"
    using viewString_num [OF num(2)] gn by simp
  with \<open>c \<noteq> 44\<close> have v: "strip_commas (toUpperCase g) = c # filter (\<lambda>c. c \<noteq> 44) cs"
    by (simp add: ccs)
  have "normalize_views s = parseInt (strip_commas (toUpperCase g))"
    using normalize_views_match [OF assms(1)] assms(2) by (simp add: kmb_char_iff Let_def)
  also have "\<dots> = round_double (plain_count g) (Suc 0)"
    unfolding plain_count_def v parseInt_def Let_def using dig by simp
  finally show ?thesis .
qed

lemma normalize_views_integer:
  assumes "views_pattern s g" "\<not> kmb_char (last g)" "is_digit (hd g)"
  shows "normalize_views s = PosInf \<or> nonneg_integer (normalize_views s)"
  unfolding normalize_views_plain [OF assms]
  using round_double_nat_cases nonneg_integer_of_nat by metis

text \<open>Below \<open>2^53\<close> the count is returned exactly.\<close>

lemma normalize_views_exact:
  assumes "views_pattern s g" "\<not> kmb_char (last g)" "is_digit (hd g)" "plain_count g < 2 ^ 53"
  shows "normalize_views s = Fin (of_nat (plain_count g))"
proof (cases "plain_count g = 0")
  case True
  then show ?thesis by (simp add: normalize_views_plain [OF assms(1,2,3)] round_double_def)
next
  case False
  then show ?thesis
    using round_double_small [of "plain_count g"] assms(4)
    by (simp add: normalize_views_plain [OF assms(1,2,3)])
qed

text \<open>
  A capture group that starts with a digit gives a number: never \<^verbatim>\<open>NaN\<close>, never
  below zero, finite when the group has at most 290 characters, and at least 1 when
  its first digit is not 0.
\<close>

lemma viewString_hd:
  assumes "views_pattern s g" "is_digit (hd g)"
  shows "\<exists>rest. strip_commas (toUpperCase g) = hd g # rest \<and> length (hd g # rest) \<le> length g"
proof -
  from assms(1) obtain num suf where g: "g = num @ suf" and num: "num \<noteq> []"
    unfolding views_pattern_def by blast
  obtain c cs where ccs: "num = c # cs" using num by (cases num) auto
  with g assms(2) have dig: "is_digit c" by simp
  then have c: "upper_cu c = c" "c \<noteq> 44" by (auto simp: is_digit_def upper_cu_def)
  define rest where "rest = filter (\<lambda>c. c \<noteq> 44) (map upper_cu (cs @ suf))"
  have "strip_commas (toUpperCase g) = c # rest"
    using c by (simp add: g ccs strip_commas_def toUpperCase_def rest_def)
  moreover have "length (c # rest) \<le> length g"
    unfolding rest_def g ccs using length_filter_le [of _ "map upper_cu (cs @ suf)"]
    by (simp del: length_filter_le filter_append map_append)
  moreover have "hd g = c" by (simp add: g ccs)
  ultimately show ?thesis by simp
qed

lemma times_parseFloat_bounds:
  assumes "is_digit c" "length (c # rest) \<le> 290" "0 < k" "k < 2 ^ 30"
  shows "\<exists>u. times_double (parseFloat (c # rest)) k = Fin u \<and> 0 \<le> u \<and> (49 \<le> c \<longrightarrow> 1 \<le> u)"
proof -
  from parseFloat_bounds [OF assms(1,2)] obtain q where
    q: "parseFloat (c # rest) = Fin q" "0 \<le> q" "q \<le> 2 ^ 964" "49 \<le> c \<longrightarrow> 1 \<le> q"
    by blast
  from times_double_upper [OF q(2) q(3) assms(4)] obtain u where
    u: "times_double (Fin q) k = Fin u" "0 \<le> u" by auto
  have "1 \<le> u" if "49 \<le> c"
    using times_double_lower [of q k] q(4) that assms(3) u(1) by simp
  with u show ?thesis by (simp add: q(1))
qed

lemma normalize_views_number:
  assumes "views_pattern s g" "is_digit (hd g)"
  shows "normalize_views s = PosInf \<or> (\<exists>q. normalize_views s = Fin q \<and> 0 \<le> q)"
proof -
  from viewString_hd [OF assms] obtain rest where
    v: "strip_commas (toUpperCase g) = hd g # rest" by blast
  note pf = times_double_cases [OF parseFloat_cases [OF assms(2), of rest]]
  show ?thesis
    unfolding normalize_views_match [OF assms(1)] Let_def v
    using pf [of 1000] pf [of 1000000] pf [of 1000000000] parseInt_cases [OF assms(2), of rest]
    by presburger
qed

lemma normalize_views_finite:
  assumes "views_pattern s g" "is_digit (hd g)" "length g \<le> 290"
  shows "\<exists>q. normalize_views s = Fin q \<and> 0 \<le> q \<and> (49 \<le> hd g \<longrightarrow> 1 \<le> q)"
proof -
  from viewString_hd [OF assms(1,2)] obtain rest where
    v: "strip_commas (toUpperCase g) = hd g # rest" and "length (hd g # rest) \<le> length g"
    by blast
  with assms(3) have len: "length (hd g # rest) \<le> 290" by simp
  note pf = times_parseFloat_bounds [OF assms(2) len]
  have k: "(0::nat) < 1000" "(1000::nat) < 2 ^ 30" "(0::nat) < 1000000" "(1000000::nat) < 2 ^ 30"
    "(0::nat) < 1000000000" "(1000000000::nat) < 2 ^ 30"
    by simp_all
  show ?thesis
    unfolding normalize_views_match [OF assms(1)] Let_def v
    using pf [OF k(1,2)] pf [OF k(3,4)] pf [OF k(5,6)] parseInt_bounds [OF assms(2) len]
    by presburger
qed

section \<open>The normalizer on the sample texts\<close>

lemmas class_eval = num_char_def is_digit_def kmb_char_def white_space_def upper_cu_def

lemmas round_double_eval =
  round_double_def ilog2_def round_div_even_def pow2_def bitlen_nat.simps Let_def

lemma views_1234: "normalize_views (js ''1,234 views'') = Fin 1234"
proof -
  have "viewsMatch (js ''1,234 views'') = Some (js ''1,234'')"
    by (simp add: viewsMatch_def js_def class_eval)
  moreover have "strip_commas (toUpperCase (js ''1,234'')) = js ''1234''"
    by (simp add: strip_commas_def toUpperCase_def js_def upper_cu_def)
  moreover have "parseInt (js ''1234'') = Fin 1234"
    using round_double_small [of 1234]
    by (simp add: parseInt_def js_def is_digit_def digits_value_def)
  moreover have "\<not> endsWith (js ''1234'') 75" "\<not> endsWith (js ''1234'') 77"
    "\<not> endsWith (js ''1234'') 66"
    by (simp_all add: endsWith_def js_def)
  ultimately show ?thesis by (simp add: normalize_views_def)
qed

lemma views_1_5M: "normalize_views (js ''1.5M views'') = Fin 1500000"
proof -
  have "viewsMatch (js ''1.5M views'') = Some (js ''1.5M'')"
    by (simp add: viewsMatch_def js_def class_eval)
  moreover have "strip_commas (toUpperCase (js ''1.5M'')) = js ''1.5M''"
    by (simp add: strip_commas_def toUpperCase_def js_def upper_cu_def)
  moreover have "parseFloat (js ''1.5M'') = Fin (3 / 2)"
  proof -
    have "parseFloat (js ''1.5M'') = round_double 15 10"
      by (simp add: parseFloat_def js_def is_digit_def digits_value_def)
    also have "\<dots> = Fin (3 / 2)" by (simp add: round_double_eval)
    finally show ?thesis .
  qed
  moreover have "times_double (Fin (3 / 2)) 1000000 = Fin 1500000"
  proof -
    have "times_double (Fin (3 / 2)) 1000000 = round_double 3000000 2"
      using times_double_Fin [of 2 3 1000000] by simp
    also have "\<dots> = Fin 1500000" by (simp add: round_double_eval)
    finally show ?thesis .
  qed
  moreover have "\<not> endsWith (js ''1.5M'') 75" "endsWith (js ''1.5M'') 77"
    by (simp_all add: endsWith_def js_def)
  ultimately show ?thesis by (simp add: normalize_views_def)
qed

lemma views_200K: "normalize_views (js ''200K views'') = Fin 200000"
proof -
  have "viewsMatch (js ''200K views'') = Some (js ''200K'')"
    by (simp add: viewsMatch_def js_def class_eval)
  moreover have "strip_commas (toUpperCase (js ''200K'')) = js ''200K''"
    by (simp add: strip_commas_def toUpperCase_def js_def upper_cu_def)
  moreover have "parseFloat (js ''200K'') = Fin 200"
    using round_double_small [of 200]
    by (simp add: parseFloat_def js_def is_digit_def digits_value_def)
  moreover have "times_double (Fin 200) 1000 = Fin 200000"
    using times_double_nat [of 200 1000] round_double_small [of 200000] by simp
  moreover have "endsWith (js ''200K'') 75"
    by (simp add: endsWith_def js_def)
  ultimately show ?thesis by (simp add: normalize_views_def)
qed

lemma views_3_upper: "normalize_views (js ''3 VIEWS'') = Fin 3"
proof -
  have "viewsMatch (js ''3 VIEWS'') = Some (js ''3'')"
    by (simp add: viewsMatch_def js_def class_eval)
  moreover have "strip_commas (toUpperCase (js ''3'')) = js ''3''"
    by (simp add: strip_commas_def toUpperCase_def js_def upper_cu_def)
  moreover have "parseInt (js ''3'') = Fin 3"
    using round_double_small [of 3]
    by (simp add: parseInt_def js_def is_digit_def digits_value_def)
  moreover have "\<not> endsWith (js ''3'') 75" "\<not> endsWith (js ''3'') 77" "\<not> endsWith (js ''3'') 66"
    by (simp_all add: endsWith_def js_def)
  ultimately show ?thesis by (simp add: normalize_views_def)
qed

lemma no_match_samples:
  "viewsMatch (js ''no data'') = None" "viewsMatch (js '''') = None"
  by (simp_all add: viewsMatch_def js_def class_eval)

lemma views_fraction_K: "normalize_views (js ''0.0625K views'') = Fin (125 / 2)"
proof -
  have "viewsMatch (js ''0.0625K views'') = Some (js ''0.0625K'')"
    by (simp add: viewsMatch_def js_def class_eval)
  moreover have "strip_commas (toUpperCase (js ''0.0625K'')) = js ''0.0625K''"
    by (simp add: strip_commas_def toUpperCase_def js_def upper_cu_def)
  moreover have "parseFloat (js ''0.0625K'') = Fin (1 / 16)"
  proof -
    have "parseFloat (js ''0.0625K'') = round_double 625 10000"
      by (simp add: parseFloat_def js_def is_digit_def digits_value_def)
    also have "\<dots> = Fin (1 / 16)" by (simp add: round_double_eval)
    finally show ?thesis .
  qed
  moreover have "times_double (Fin (1 / 16)) 1000 = Fin (125 / 2)"
  proof -
    have "times_double (Fin (1 / 16)) 1000 = round_double 1000 16"
      using times_double_Fin [of 16 1 1000] by simp
    also have "\<dots> = Fin (125 / 2)" by (simp add: round_double_eval)
    finally show ?thesis .
  qed
  moreover have "endsWith (js ''0.0625K'') 75"
    by (simp add: endsWith_def js_def)
  ultimately show ?thesis by (simp add: normalize_views_def)
qed

text \<open>A capture group without a digit at its start need not give a number.\<close>

lemma views_dot: "normalize_views (js ''. views'') = NaN"
proof -
  have "viewsMatch (js ''. views'') = Some (js ''.'')"
    by (simp add: viewsMatch_def js_def class_eval)
  moreover have "strip_commas (toUpperCase (js ''.'')) = js ''.''"
    by (simp add: strip_commas_def toUpperCase_def js_def upper_cu_def)
  moreover have "parseInt (js ''.'') = NaN"
    by (simp add: parseInt_def js_def is_digit_def digits_value_def)
  moreover have "\<not> endsWith (js ''.'') 75" "\<not> endsWith (js ''.'') 77" "\<not> endsWith (js ''.'') 66"
    by (simp_all add: endsWith_def js_def)
  ultimately show ?thesis by (simp add: normalize_views_def)
qed

lemma half_not_integer: "\<not> nonneg_integer (Fin (125 / 2))"
  using quotient_of_divide [of 2 125] by (simp add: nonneg_integer_def)

text \<open>
  C1. The normalizer returns 1234 for "1,234 views", 1500000 for "1.5M views", 200000
  for "200K views" and 3 for "3 VIEWS"; it returns 0 for "no data", for the empty
  string and for every other text that does not match the pattern. It is a total
  function: no input makes it fail.
\<close>

theorem normalize_views_samples:
  "normalize_views (js ''1,234 views'') = Fin 1234
   \<and> normalize_views (js ''1.5M views'') = Fin 1500000
   \<and> normalize_views (js ''200K views'') = Fin 200000
   \<and> normalize_views (js ''3 VIEWS'') = Fin 3
   \<and> normalize_views (js ''no data'') = Fin 0
   \<and> normalize_views (js '''') = Fin 0
   \<and> (\<forall>s. (\<nexists>g. views_pattern s g) \<longrightarrow> normalize_views s = Fin 0)"
proof -
  have "normalize_views (js ''no data'') = Fin 0" "normalize_views (js '''') = Fin 0"
    by (simp_all add: normalize_views_def no_match_samples)
  then show ?thesis
    using views_1234 views_1_5M views_200K views_3_upper normalize_views_no_match by blast
qed

theorem normalize_views_samples_witness:
  "(\<nexists>g. views_pattern (js ''12 likes'') g) \<and> normalize_views (js ''12 likes'') = Fin 0"
proof -
  have "viewsMatch (js ''12 likes'') = None"
    by (simp add: viewsMatch_def js_def class_eval)
  then have "\<nexists>g. views_pattern (js ''12 likes'') g" by (simp add: viewsMatch_None_iff)
  with normalize_views_samples show ?thesis by blast
qed

text \<open>
  C2, as the claim states it, fails: "0.0625K views" matches the pattern, and the
  product 0.0625 * 1000 = 62.5 is returned as it is, so the normalizer and the views
  field of the extracted record hold a number that is not an integer.
\<close>

theorem normalize_views_not_integer:
  "normalize_views (js ''0.0625K views'') = Fin (125 / 2)
   \<and> \<not> nonneg_integer (normalize_views (js ''0.0625K views''))
   \<and> \<not> nonneg_integer (views (extract_video
         \<lparr>video_title = None, video_info_span = Some (js ''0.0625K views''), img_src = None\<rparr>))"
proof -
  have "trim (js ''0.0625K views'') = js ''0.0625K views''"
    by (simp add: trim_def js_def white_space_def)
  then show ?thesis
    by (simp add: views_fraction_K half_not_integer extract_video_def text_or_empty_def)
qed

text \<open>
  C2, amended. The normalizer returns 0 for every text that does not match the
  pattern. On a match the separators are stripped from the capture group; with a final
  K, M or B the result is \<^verbatim>\<open>parseFloat\<close> of it times 1000, 1000000 or 1000000000, as a
  double and without truncation; without such a suffix the result is \<^verbatim>\<open>parseInt\<close> of
  it. Whenever the capture group starts with a digit, the result is a number that is
  not negative: a finite double from zero up or \<^verbatim>\<open>+Infinity\<close>, and a finite one when
  the group has at most 290 characters; without a suffix it is then a non-negative
  integer, and exactly the count written when that is below \<open>2^53\<close>. The views field
  of an extracted record is the normalizer's result on the trimmed text of the info
  node. A capture group that does not start with a digit is outside this statement:
  it need not give a number, see \<open>views_dot\<close>.
\<close>

theorem normalize_views_range:
  "((\<nexists>g. views_pattern s g) \<longrightarrow> normalize_views s = Fin 0)
   \<and> (\<forall>g. views_pattern s g \<longrightarrow>
         normalize_views s =
           (let viewString = strip_commas (toUpperCase g)
            in if upper_cu (last g) = 75 then times_double (parseFloat viewString) 1000
               else if upper_cu (last g) = 77 then times_double (parseFloat viewString) 1000000
               else if upper_cu (last g) = 66 then times_double (parseFloat viewString) 1000000000
               else parseInt viewString))
   \<and> (\<forall>g. views_pattern s g \<and> is_digit (hd g) \<longrightarrow>
         normalize_views s = PosInf \<or> (\<exists>q. normalize_views s = Fin q \<and> 0 \<le> q))
   \<and> (\<forall>g. views_pattern s g \<and> is_digit (hd g) \<and> length g \<le> 290 \<longrightarrow>
         (\<exists>q. normalize_views s = Fin q \<and> 0 \<le> q))
   \<and> (\<forall>g. views_pattern s g \<and> \<not> kmb_char (last g) \<and> is_digit (hd g) \<longrightarrow>
         normalize_views s = PosInf \<or> nonneg_integer (normalize_views s))
   \<and> (\<forall>g. views_pattern s g \<and> \<not> kmb_char (last g) \<and> is_digit (hd g)
           \<and> length g \<le> 290 \<longrightarrow>
         nonneg_integer (normalize_views s))
   \<and> (\<forall>g. views_pattern s g \<and> \<not> kmb_char (last g) \<and> is_digit (hd g)
           \<and> plain_count g < 2 ^ 53 \<longrightarrow>
         normalize_views s = Fin (of_nat (plain_count g)))
   \<and> views (extract_video el) =
       normalize_views (case video_info_span el of None \<Rightarrow> [] | Some t \<Rightarrow> trim t)"
proof -
  have fin: "\<exists>q. normalize_views s = Fin q \<and> 0 \<le> q"
    if "views_pattern s g" "is_digit (hd g)" "length g \<le> 290" for g
    using normalize_views_finite [OF that] by blast
  have int: "nonneg_integer (normalize_views s)"
    if "views_pattern s g" "\<not> kmb_char (last g)" "is_digit (hd g)" "length g \<le> 290" for g
    using normalize_views_integer [OF that(1,2,3)] fin [OF that(1,3,4)] by auto
  have rec: "views (extract_video el) =
       normalize_views (case video_info_span el of None \<Rightarrow> [] | Some t \<Rightarrow> trim t)"
    by (simp add: extract_video_def text_or_empty_def)
  show ?thesis
    using normalize_views_no_match [of s] normalize_views_match [of s]
      normalize_views_number [of s] fin normalize_views_integer [of s] int
      normalize_views_exact [of s] rec
    by blast
qed

theorem normalize_views_range_witness:
  "views_pattern (js ''1,234 views'') (js ''1,234'')
   \<and> \<not> kmb_char (last (js ''1,234'')) \<and> is_digit (hd (js ''1,234''))
   \<and> length (js ''1,234'') \<le> 290
   \<and> plain_count (js ''1,234'') = 1234 \<and> plain_count (js ''1,234'') < 2 ^ 53
   \<and> nonneg_integer (normalize_views (js ''1,234 views''))
   \<and> normalize_views (js ''1,234 views'') = Fin (of_nat (plain_count (js ''1,234'')))
   \<and> views_pattern (js ''1.5M views'') (js ''1.5M'') \<and> is_digit (hd (js ''1.5M''))
   \<and> length (js ''1.5M'') \<le> 290
   \<and> (\<exists>q. normalize_views (js ''1.5M views'') = Fin q \<and> 0 \<le> q)
   \<and> (\<nexists>g. views_pattern (js ''no data'') g) \<and> normalize_views (js ''no data'') = Fin 0"
proof -
  have "viewsMatch (js ''1,234 views'') = Some (js ''1,234'')"
    by (simp add: viewsMatch_def js_def class_eval)
  then have p: "views_pattern (js ''1,234 views'') (js ''1,234'')"
    by (simp add: viewsMatch_iff_pattern)
  have c: "\<not> kmb_char (last (js ''1,234''))" "is_digit (hd (js ''1,234''))"
    "length (js ''1,234'') \<le> 290"
    by (simp_all add: js_def kmb_char_def is_digit_def)
  have pc: "plain_count (js ''1,234'') = 1234"
    by (simp add: plain_count_def strip_commas_def toUpperCase_def js_def upper_cu_def
        is_digit_def digits_value_def)
  then have small: "plain_count (js ''1,234'') < 2 ^ 53" by simp
  have "viewsMatch (js ''1.5M views'') = Some (js ''1.5M'')"
    by (simp add: viewsMatch_def js_def class_eval)
  then have p2: "views_pattern (js ''1.5M views'') (js ''1.5M'')"
    by (simp add: viewsMatch_iff_pattern)
  have c2: "is_digit (hd (js ''1.5M''))" "length (js ''1.5M'') \<le> 290"
    by (simp_all add: js_def is_digit_def)
  have n: "\<nexists>g. views_pattern (js ''no data'') g"
    using no_match_samples(1) by (simp add: viewsMatch_None_iff)
  note one = normalize_views_range [of "js ''1,234 views''"]
  note two = normalize_views_range [of "js ''1.5M views''"]
  note three = normalize_views_range [of "js ''no data''"]
  have a: "nonneg_integer (normalize_views (js ''1,234 views''))" using one p c by blast
  have b: "normalize_views (js ''1,234 views'') = Fin (of_nat (plain_count (js ''1,234'')))"
    using one p c small by blast
  have d: "\<exists>q. normalize_views (js ''1.5M views'') = Fin q \<and> 0 \<le> q" using two p2 c2 by blast
  have e: "normalize_views (js ''no data'') = Fin 0" using three n by blast
  from p c pc small a b p2 c2 d n e show ?thesis by blast
qed

section \<open>The extractor\<close>

lemma trim_samples:
  "trim (js '' Intro '') = js ''Intro''" "trim (js ''Outro'') = js ''Outro''"
  "trim (js ''1,000,000 views'') = js ''1,000,000 views''"
  "trim (js ''500K views'') = js ''500K views''"
  "trim (js ''10 views'') = js ''10 views''"
  "trim (js ''1,234 views'') = js ''1,234 views''"
  "trim (js ''  1.5M views  '') = js ''1.5M views''"
  by (simp_all add: trim_def js_def white_space_def)

lemma views_million: "normalize_views (js ''1,000,000 views'') = Fin 1000000"
proof -
  have "viewsMatch (js ''1,000,000 views'') = Some (js ''1,000,000'')"
    by (simp add: viewsMatch_def js_def class_eval)
  moreover have "strip_commas (toUpperCase (js ''1,000,000'')) = js ''1000000''"
    by (simp add: strip_commas_def toUpperCase_def js_def upper_cu_def)
  moreover have "parseInt (js ''1000000'') = Fin 1000000"
    using round_double_small [of 1000000]
    by (simp add: parseInt_def js_def is_digit_def digits_value_def)
  moreover have "\<not> endsWith (js ''1000000'') 75" "\<not> endsWith (js ''1000000'') 77"
    "\<not> endsWith (js ''1000000'') 66"
    by (simp_all add: endsWith_def js_def)
  ultimately show ?thesis by (simp add: normalize_views_def)
qed

lemma views_500K: "normalize_views (js ''500K views'') = Fin 500000"
proof -
  have "viewsMatch (js ''500K views'') = Some (js ''500K'')"
    by (simp add: viewsMatch_def js_def class_eval)
  moreover have "strip_commas (toUpperCase (js ''500K'')) = js ''500K''"
    by (simp add: strip_commas_def toUpperCase_def js_def upper_cu_def)
  moreover have "parseFloat (js ''500K'') = Fin 500"
    using round_double_small [of 500]
    by (simp add: parseFloat_def js_def is_digit_def digits_value_def)
  moreover have "times_double (Fin 500) 1000 = Fin 500000"
    using times_double_nat [of 500 1000] round_double_small [of 500000] by simp
  moreover have "endsWith (js ''500K'') 75"
    by (simp add: endsWith_def js_def)
  ultimately show ?thesis by (simp add: normalize_views_def)
qed

lemma views_10: "normalize_views (js ''10 views'') = Fin 10"
proof -
  have "viewsMatch (js ''10 views'') = Some (js ''10'')"
    by (simp add: viewsMatch_def js_def class_eval)
  moreover have "strip_commas (toUpperCase (js ''10'')) = js ''10''"
    by (simp add: strip_commas_def toUpperCase_def js_def upper_cu_def)
  moreover have "parseInt (js ''10'') = Fin 10"
    using round_double_small [of 10]
    by (simp add: parseInt_def js_def is_digit_def digits_value_def)
  moreover have "\<not> endsWith (js ''10'') 75" "\<not> endsWith (js ''10'') 77" "\<not> endsWith (js ''10'') 66"
    by (simp_all add: endsWith_def js_def)
  ultimately show ?thesis by (simp add: normalize_views_def)
qed

lemma extract_demo: "extract_videos demo_elements = demo_videos"
  by (simp add: extract_videos_def demo_elements_def demo_videos_def extract_video_def
      text_or_empty_def src_or_empty_def trim_samples views_million views_500K views_10)

text \<open>
  C7. The extractor returns one record per matched container, in document order,
  without filtering or merging. Each field of a record is read from its own node and
  from nothing else: the title is the trimmed text of the title node, the thumbnail is
  the source of the image node, the views are the normalizer's result on the trimmed
  text of the info node; an absent node gives the empty string (and so 0 views), and
  no combination of absent nodes makes the extraction fail. In particular a container
  without title and image whose info text is "1,234 views" gives the record with
  empty title, empty thumbnail and 1234 views, and a container whose three nodes are
  there gives the record of the three values read; and whenever the info text matches the
  pattern with a capture group of at most 290 characters whose first character is a
  digit from 1 to 9, with or without suffix, the views are a finite number that is at
  least 1, so greater than zero.
\<close>

theorem extract_videos_one_per_container:
  "length (extract_videos elements) = length elements
   \<and> (\<forall>i<length elements. extract_videos elements ! i = extract_video (elements ! i))
   \<and> title (extract_video el) = (case video_title el of None \<Rightarrow> [] | Some t \<Rightarrow> trim t)
   \<and> views (extract_video el) =
       normalize_views (case video_info_span el of None \<Rightarrow> [] | Some t \<Rightarrow> trim t)
   \<and> thumbnail (extract_video el) = (case img_src el of None \<Rightarrow> [] | Some u \<Rightarrow> u)
   \<and> (video_info_span el = None \<longrightarrow> views (extract_video el) = Fin 0)
   \<and> extract_video \<lparr>video_title = None, video_info_span = Some (js ''1,234 views''), img_src = None\<rparr>
       = \<lparr>title = [], views = Fin 1234, thumbnail = []\<rparr>
   \<and> extract_video \<lparr>video_title = Some (js '' Intro ''),
                      video_info_span = Some (js ''  1.5M views  ''), img_src = Some (js ''a.jpg'')\<rparr>
       = \<lparr>title = js ''Intro'', views = Fin 1500000, thumbnail = js ''a.jpg''\<rparr>
   \<and> (\<forall>g. views_pattern (case video_info_span el of None \<Rightarrow> [] | Some t \<Rightarrow> trim t) g
           \<and> 49 \<le> hd g \<and> hd g \<le> 57 \<and> length g \<le> 290 \<longrightarrow>
         (\<exists>q. views (extract_video el) = Fin q \<and> 1 \<le> q))"
proof -
  have v: "views (extract_video el) =
       normalize_views (case video_info_span el of None \<Rightarrow> [] | Some t \<Rightarrow> trim t)"
    by (simp add: extract_video_def text_or_empty_def)
  have pos: "\<exists>q. views (extract_video el) = Fin q \<and> 1 \<le> q"
    if "views_pattern (case video_info_span el of None \<Rightarrow> [] | Some t \<Rightarrow> trim t) g"
      "49 \<le> hd g" "hd g \<le> 57" "length g \<le> 290" for g
  proof -
    have "is_digit (hd g)" using that(2,3) by (simp add: is_digit_def)
    from normalize_views_finite [OF that(1) this that(4)] that(2) show ?thesis
      unfolding v by blast
  qed
  have empty: "normalize_views [] = Fin 0"
    using no_match_samples(2) by (simp add: normalize_views_def js_def)
  have none: "views (extract_video el) = Fin 0" if "video_info_span el = None"
    using that empty by (simp add: v)
  have sample: "extract_video \<lparr>video_title = None, video_info_span = Some (js ''1,234 views''), img_src = None\<rparr>
       = \<lparr>title = [], views = Fin 1234, thumbnail = []\<rparr>"
    by (simp add: extract_video_def text_or_empty_def src_or_empty_def trim_samples views_1234)
  have full: "extract_video \<lparr>video_title = Some (js '' Intro ''),
                      video_info_span = Some (js ''  1.5M views  ''), img_src = Some (js ''a.jpg'')\<rparr>
       = \<lparr>title = js ''Intro'', views = Fin 1500000, thumbnail = js ''a.jpg''\<rparr>"
    by (simp add: extract_video_def text_or_empty_def src_or_empty_def trim_samples views_1_5M)
  have fields: "title (extract_video el) = (case video_title el of None \<Rightarrow> [] | Some t \<Rightarrow> trim t)"
    "thumbnail (extract_video el) = (case img_src el of None \<Rightarrow> [] | Some u \<Rightarrow> u)"
    by (simp_all add: extract_video_def text_or_empty_def src_or_empty_def)
  have list: "length (extract_videos elements) = length elements"
    "\<forall>i<length elements. extract_videos elements ! i = extract_video (elements ! i)"
    by (simp_all add: extract_videos_def)
  from list fields v none sample full pos show ?thesis by blast
qed

theorem extract_videos_one_per_container_witness:
  "(1::nat) < length demo_elements
   \<and> extract_videos demo_elements ! 1 = \<lparr>title = [], views = Fin 500000, thumbnail = []\<rparr>
   \<and> extract_video \<lparr>video_title = Some (js '' Intro ''), video_info_span = None,
                     img_src = Some (js ''a.jpg'')\<rparr>
       = \<lparr>title = js ''Intro'', views = Fin 0, thumbnail = js ''a.jpg''\<rparr>
   \<and> views_pattern (js ''500K views'') (js ''500K'')
   \<and> (49::nat) \<le> hd (js ''500K'') \<and> hd (js ''500K'') \<le> 57 \<and> length (js ''500K'') \<le> 290
   \<and> (\<exists>q. views (extract_video \<lparr>video_title = None, video_info_span = Some (js ''500K views''),
                                    img_src = None\<rparr>) = Fin q \<and> 1 \<le> q)"
proof -
  let ?el1 = "\<lparr>video_title = Some (js '' Intro ''), video_info_span = None,
                img_src = Some (js ''a.jpg'')\<rparr>"
  let ?el2 = "\<lparr>video_title = None, video_info_span = Some (js ''500K views''), img_src = None\<rparr>"
  note main1 = extract_videos_one_per_container [of demo_elements ?el1]
  note main2 = extract_videos_one_per_container [of demo_elements ?el2]
  have len: "(1::nat) < length demo_elements" by (simp add: demo_elements_def)
  have "extract_videos demo_elements ! 1 = extract_video (demo_elements ! 1)"
    using main1 len by blast
  also have "\<dots> = \<lparr>title = [], views = Fin 500000, thumbnail = []\<rparr>"
    by (simp add: demo_elements_def extract_video_def text_or_empty_def src_or_empty_def
        trim_samples views_500K)
  finally have second: "extract_videos demo_elements ! 1 = \<lparr>title = [], views = Fin 500000, thumbnail = []\<rparr>" .
  have t1: "title (extract_video ?el1) = js ''Intro''"
    using main1 by (simp add: trim_samples)
  have h1: "thumbnail (extract_video ?el1) = js ''a.jpg''"
    using main1 by simp
  have "video_info_span ?el1 = None" by simp
  with main1 have v1: "views (extract_video ?el1) = Fin 0" by blast
  have first: "extract_video ?el1 = \<lparr>title = js ''Intro'', views = Fin 0, thumbnail = js ''a.jpg''\<rparr>"
    using t1 h1 v1 by (cases "extract_video ?el1") simp
  have "viewsMatch (js ''500K views'') = Some (js ''500K'')"
    by (simp add: viewsMatch_def js_def class_eval)
  then have pat: "views_pattern (js ''500K views'') (js ''500K'')" by (simp add: viewsMatch_iff_pattern)
  have c: "(49::nat) \<le> hd (js ''500K'')" "hd (js ''500K'') \<le> 57" "length (js ''500K'') \<le> 290"
    by (simp_all add: js_def)
  have info: "(case video_info_span ?el2 of None \<Rightarrow> [] | Some t \<Rightarrow> trim t) = js ''500K views''"
    by (simp add: trim_samples)
  have "\<exists>q. views (extract_video ?el2) = Fin q \<and> 1 \<le> q"
    using main2 pat c unfolding info by blast
  with len second first pat c show ?thesis by blast
qed

section \<open>The chart points\<close>

lemma digits_value_snoc: "digits_value (ds @ [c]) = 10 * digits_value ds + (c - 48)"
  by (simp add: digits_value_def)

lemma digits_value_decimal: "digits_value (decimal n) = n"
proof (induction n rule: decimal.induct)
  case (1 n)
  show ?case
  proof (cases "n < 10")
    case True
    then show ?thesis by (subst decimal.simps) (simp add: digits_value_def)
  next
    case False
    with 1 have "digits_value (decimal (n div 10)) = n div 10" by simp
    with False show ?thesis by (subst decimal.simps) (simp add: digits_value_snoc)
  qed
qed

lemma decimal_inj: "decimal m = decimal n \<Longrightarrow> m = n"
  by (metis digits_value_decimal)

lemma length_graphData_of: "length (graphData_of vs) = length vs"
  by (simp add: graphData_of_def)

lemma nth_graphData_of:
  "i < length vs \<Longrightarrow>
   graphData_of vs ! i = \<lparr>name = js ''Video '' @ decimal (i + 1), point_views = views (vs ! i)\<rparr>"
  by (simp add: graphData_of_def)

lemma names_graphData_of:
  "map name (graphData_of vs) = map (\<lambda>i. js ''Video '' @ decimal (i + 1)) [0..<length vs]"
  by (rule nth_equalityI) (simp_all add: length_graphData_of nth_graphData_of)

lemma distinct_names: "distinct (map name (graphData_of vs))"
  unfolding names_graphData_of
  by (rule distinct_map [THEN iffD2]) (auto simp: inj_on_def dest: decimal_inj)

lemma decimal_samples: "decimal 1 = js ''1''" "decimal 2 = js ''2''" "decimal 3 = js ''3''"
  "decimal 12 = js ''12''"
  by (simp_all add: decimal.simps js_def)

section \<open>The route handler\<close>

lemma playlistData_of_Nil: "playlistData_of [] = \<lparr>videoList = [], graphData = []\<rparr>"
  by (simp add: playlistData_of_def first_batch_def graphData_of_def)

lemma playlistData_of_Cons:
  "playlistData_of (b # rest) = \<lparr>videoList = videos b, graphData = graphData_of (videos b)\<rparr>"
  by (simp add: playlistData_of_def first_batch_def Let_def)

lemma playlistData_of_graph: "graphData (playlistData_of items) = graphData_of (videoList (playlistData_of items))"
  by (simp add: playlistData_of_def Let_def)

lemma catch_block_fields:
  "opens (catch_block w n) = 1" "drop_calls (catch_block w n) = Suc n"
  "disposed (catch_block w n) = (if drop_rejects w n then 0 else 1)"
  "result (catch_block w n) =
     (if drop_rejects w n then Rejected
      else Responded (Failure 500 (js ''An error occurred while scraping the playlist'')))"
  by (simp_all add: catch_block_def)

text \<open>The three ways in which the \<^verbatim>\<open>try\<close> statement ends.\<close>

lemma try_block_cases:
  assumes "try_block w = Some r"
  shows "r = catch_block w 0
     \<or> (drop_rejects w 0 \<and> r = catch_block w 1)
     \<or> (\<not> drop_rejects w 0 \<and> (\<exists>items.
           r = \<lparr>result = Responded (Success (playlistData_of items)),
                opens = 1, drop_calls = 1, disposed = 1\<rparr>))"
proof (cases "crawler_run w (stored w)")
  case None
  with assms show ?thesis by (simp add: try_block_def)
next
  case (Some a)
  show ?thesis
  proof (cases a)
    case (Inl u)
    with Some assms show ?thesis by (simp add: try_block_def)
  next
    case (Inr b)
    obtain items failed where "b = (items, failed)" by (cases b)
    with Some Inr assms show ?thesis
      by (auto simp: try_block_def Let_def split: if_splits)
  qed
qed

lemma try_block_success:
  assumes "crawler_run w (stored w) = Some (Inr (items, failed))"
    "\<not> getData_rejects w" "\<not> drop_rejects w 0"
  shows "try_block w = Some \<lparr>result = Responded (Success (playlistData_of items)),
                             opens = 1, drop_calls = 1, disposed = 1\<rparr>"
  using assms by (simp add: try_block_def)

text \<open>A call either ends before a dataset is opened, without a success response, or it
  is the \<^verbatim>\<open>try\<close> statement.\<close>

lemma POST_cases:
  assumes "POST w request = Some r"
  shows "(\<exists>res. r = before_open res \<and> (\<forall>pd. res \<noteq> Responded (Success pd))) \<or> try_block w = Some r"
  using assms
  by (auto simp: POST_def split: request.splits option.splits if_splits)

lemma POST_valid:
  assumes "valid_locator w u" "\<not> open_rejects w"
  shows "POST w (Body (Some u)) = try_block w"
  using assms by (auto simp: POST_def valid_locator_def split: option.splits)

lemma POST_success_data:
  assumes "POST w request = Some r" "result r = Responded (Success pd)"
  shows "\<exists>items. pd = playlistData_of items"
proof -
  from POST_cases [OF assms(1)] have "try_block w = Some r"
    using assms(2) by (auto simp: before_open_def)
  from try_block_cases [OF this] assms(2) show ?thesis
    by (auto simp: catch_block_fields split: if_splits)
qed

subsection \<open>The crawler on failing attempts\<close>

lemma requestHandler_fails:
  assumes "goto w i = Some p" "attempt_fails w i"
  shows "\<exists>e. requestHandler w i p items = Some (Inl e)"
proof (cases "selector_found (browser w) p")
  case False
  then show ?thesis by (simp add: requestHandler_def)
next
  case True
  with assms consider
      t where "scroll_loop (browser w) p 0 = Some (Inl ScriptError, t)"
    | p' t where "scroll_loop (browser w) p 0 = Some (Inr p', t)" "containers (browser w) p' = None"
    by (auto simp: attempt_fails_def)
  then show ?thesis
  proof cases
    case 1
    with True show ?thesis by (simp add: requestHandler_def)
  next
    case 2
    with True show ?thesis by (simp add: requestHandler_def)
  qed
qed

lemma attempts_all_errors:
  "(\<forall>j. i \<le> j \<and> j < i + k \<longrightarrow>
      (case goto w j of None \<Rightarrow> True
       | Some p \<Rightarrow> \<exists>e. requestHandler w j p items = Some (Inl e))) \<Longrightarrow>
   attempts w k i items = Some (items, 1)"
proof (induction k arbitrary: i)
  case 0
  show ?case by simp
next
  case (Suc k)
  have rest: "attempts w k (Suc i) items = Some (items, 1)"
    using Suc.prems by (intro Suc.IH) auto
  have here: "case goto w i of None \<Rightarrow> True
       | Some p \<Rightarrow> \<exists>e. requestHandler w i p items = Some (Inl e)"
    using Suc.prems by simp
  show ?case
  proof (cases "goto w i")
    case None
    with rest show ?thesis by simp
  next
    case (Some p)
    with here obtain e where "requestHandler w i p items = Some (Inl e)" by auto
    with Some rest show ?thesis by simp
  qed
qed

lemma attempts_all_fail:
  assumes "\<forall>j. i \<le> j \<and> j < i + k \<longrightarrow> attempt_fails w j"
  shows "attempts w k i items = Some (items, 1)"
proof (rule attempts_all_errors, intro allI impI)
  fix j assume "i \<le> j \<and> j < i + k"
  with assms have f: "attempt_fails w j" by blast
  show "case goto w j of None \<Rightarrow> True
       | Some p \<Rightarrow> \<exists>e. requestHandler w j p items = Some (Inl e)"
    using requestHandler_fails [OF _ f, of _ items] by (cases "goto w j") auto
qed

lemma crawler_run_all_fail:
  assumes "\<not> run_rejects w" "\<forall>i\<le>maxRequestRetries w. attempt_fails w i"
  shows "crawler_run w items = Some (Inr (items, 1))"
  using assms attempts_all_fail [of 0 "Suc (maxRequestRetries w)" w items]
  by (simp add: crawler_run_def less_Suc_eq_le)

subsection \<open>Every call returns\<close>

lemma requestHandler_returns: "\<exists>x. requestHandler w i p items = Some x"
  by (simp add: requestHandler_def split: option.splits prod.splits sum.splits)

lemma attempts_returns: "\<exists>x. attempts w k i items = Some x"
proof (induction k arbitrary: i)
  case 0
  show ?case by simp
next
  case (Suc k)
  show ?case
  proof (cases "goto w i")
    case None
    with Suc.IH [of "Suc i"] show ?thesis by simp
  next
    case (Some p)
    from requestHandler_returns [of w i p items] obtain x
      where x: "requestHandler w i p items = Some x" ..
    show ?thesis
    proof (cases x)
      case (Inl e)
      with Some x Suc.IH [of "Suc i"] show ?thesis by simp
    next
      case (Inr items')
      with Some x show ?thesis by simp
    qed
  qed
qed

lemma crawler_run_returns: "\<exists>x. crawler_run w items = Some x"
  using attempts_returns [of w "Suc (maxRequestRetries w)" 0 items]
  by (auto simp: crawler_run_def)

lemma try_block_returns: "\<exists>r. try_block w = Some r"
proof -
  from crawler_run_returns [of w "stored w"] obtain x
    where "crawler_run w (stored w) = Some x" ..
  then show ?thesis
    by (cases x) (auto simp: try_block_def Let_def split: prod.splits)
qed

lemma POST_returns: "\<exists>r. POST w request = Some r"
  using try_block_returns [of w]
  by (auto simp: POST_def split: request.splits option.splits)

text \<open>A call opens a dataset exactly when validation passes and \<^verbatim>\<open>Dataset.open\<close> succeeds.\<close>

lemma POST_not_opened:
  assumes "\<nexists>u. request = Body (Some u) \<and> valid_locator w u \<and> \<not> open_rejects w"
  shows "\<exists>res. POST w request = Some (before_open res)"
  using assms
  by (auto simp: POST_def valid_locator_def split: request.splits option.splits)

lemma try_block_opens: "try_block w = Some r \<Longrightarrow> opens r = 1"
  by (auto dest!: try_block_cases simp: catch_block_fields)

subsection \<open>The sample worlds\<close>

lemma demo_browser_sel:
  "selector_found demo_browser p" "scrollHeight demo_browser p = 0"
  "scroll_and_wait demo_browser p = Some (Suc p)" "containers demo_browser p = Some demo_elements"
  by (simp_all add: demo_browser_def growing_page_def)

lemma scroll_loop_demo: "scroll_loop demo_browser 0 0 = Some (Inr (Suc 0), 2000)"
  by (subst scroll_loop.simps) (simp add: demo_browser_sel)

lemma crawler_run_demo:
  assumes "browser w = demo_browser" "goto w 0 = Some 0" "\<not> pushData_rejects w 0" "\<not> run_rejects w"
    "overhead w 0 + 2000 < requestHandlerTimeout w"
  shows "crawler_run w items = Some (Inr (items @ [\<lparr>videos = demo_videos\<rparr>], 0))"
proof -
  have "requestHandler w 0 0 items = Some (Inr (items @ [\<lparr>videos = demo_videos\<rparr>]))"
    using assms by (simp add: requestHandler_def demo_browser_sel scroll_loop_demo extract_demo)
  then show ?thesis using assms by (simp add: crawler_run_def)
qed

lemma demo_locator:
  assumes "new_URL w = demo_new_URL"
  shows "valid_locator w demo_url"
proof -
  have "demo_url \<noteq> []" by (simp add: demo_url_def js_def)
  moreover have "js ''PL123'' \<noteq> []" by (simp add: js_def)
  ultimately show ?thesis using assms by (simp add: valid_locator_def demo_new_URL_def)
qed

lemma demo_world_sel:
  "new_URL demo_world = demo_new_URL" "\<not> open_rejects demo_world" "stored demo_world = []"
  "browser demo_world = demo_browser" "goto demo_world i = Some 0"
  "\<not> pushData_rejects demo_world i" "maxRequestRetries demo_world = 3"
  "overhead demo_world i = 1500" "requestHandlerTimeout demo_world = 60000"
  "\<not> run_rejects demo_world" "\<not> getData_rejects demo_world" "\<not> drop_rejects demo_world k"
  by (simp_all add: demo_world_def)

lemma POST_demo:
  "POST demo_world (Body (Some demo_url)) =
     Some \<lparr>result = Responded (Success \<lparr>videoList = demo_videos, graphData = graphData_of demo_videos\<rparr>),
           opens = 1, drop_calls = 1, disposed = 1\<rparr>"
proof -
  have "crawler_run demo_world (stored demo_world) = Some (Inr ([\<lparr>videos = demo_videos\<rparr>], 0))"
    using crawler_run_demo [of demo_world "[]"] by (simp add: demo_world_sel)
  from try_block_success [OF this] show ?thesis
    using POST_valid [of demo_world demo_url] demo_locator [of demo_world]
    by (simp add: demo_world_sel playlistData_of_Cons)
qed

lemma offline_world_sel:
  "new_URL offline_world = demo_new_URL" "\<not> open_rejects offline_world"
  "stored offline_world = []" "goto offline_world i = None"
  "\<not> run_rejects offline_world" "\<not> getData_rejects offline_world"
  "\<not> drop_rejects offline_world k"
  by (simp_all add: offline_world_def demo_world_def)

lemma never_found_world_sel:
  "new_URL never_found_world = demo_new_URL" "\<not> open_rejects never_found_world"
  "stored never_found_world = []" "goto never_found_world i = Some 0"
  "\<not> selector_found (browser never_found_world) p"
  "\<not> run_rejects never_found_world" "\<not> getData_rejects never_found_world"
  "\<not> drop_rejects never_found_world k"
  by (simp_all add: never_found_world_def demo_world_def)

lemma flaky_drop_world_sel:
  "new_URL flaky_drop_world = demo_new_URL" "\<not> open_rejects flaky_drop_world"
  "stored flaky_drop_world = []" "browser flaky_drop_world = demo_browser"
  "goto flaky_drop_world i = Some 0" "\<not> pushData_rejects flaky_drop_world i"
  "overhead flaky_drop_world i = 1500" "requestHandlerTimeout flaky_drop_world = 60000"
  "\<not> run_rejects flaky_drop_world" "\<not> getData_rejects flaky_drop_world"
  "drop_rejects flaky_drop_world k \<longleftrightarrow> k = 0"
  by (simp_all add: flaky_drop_world_def demo_world_def)

lemma broken_drop_world_sel:
  "new_URL broken_drop_world = demo_new_URL" "\<not> open_rejects broken_drop_world"
  "stored broken_drop_world = []" "browser broken_drop_world = demo_browser"
  "goto broken_drop_world i = Some 0" "\<not> pushData_rejects broken_drop_world i"
  "overhead broken_drop_world i = 1500" "requestHandlerTimeout broken_drop_world = 60000"
  "\<not> run_rejects broken_drop_world" "\<not> getData_rejects broken_drop_world"
  "drop_rejects broken_drop_world k"
  by (simp_all add: broken_drop_world_def demo_world_def)

lemma collided_world_sel:
  "new_URL collided_world = demo_new_URL" "\<not> open_rejects collided_world"
  "stored collided_world = [old_batch]" "browser collided_world = demo_browser"
  "goto collided_world i = Some 0" "\<not> pushData_rejects collided_world i"
  "overhead collided_world i = 1500" "requestHandlerTimeout collided_world = 60000"
  "\<not> run_rejects collided_world" "\<not> getData_rejects collided_world"
  "\<not> drop_rejects collided_world k"
  by (simp_all add: collided_world_def demo_world_def)

lemma endless_world_sel:
  "new_URL endless_world = demo_new_URL" "\<not> open_rejects endless_world"
  "stored endless_world = []" "browser endless_world = endless_page"
  "goto endless_world i = Some 0" "maxRequestRetries endless_world = 3"
  "\<not> run_rejects endless_world" "\<not> getData_rejects endless_world"
  "\<not> drop_rejects endless_world k"
  by (simp_all add: endless_world_def demo_world_def)

lemma page_after_endless: "page_after endless_page n p = Some (p + n)"
  by (induction n arbitrary: p) (simp_all add: endless_page_def)

lemma scroll_loop_endless: "scroll_loop endless_page p waited = None"
  unfolding scroll_loop_None_iff stable_at_def measured_def page_after_endless
  by (simp add: endless_page_def)

lemma requestHandler_endless: "requestHandler endless_world i p items = Some (Inl HandlerTimeout)"
  by (simp add: requestHandler_def endless_world_sel scroll_loop_endless) (simp add: endless_page_def)

lemma slow_world_sel:
  "new_URL slow_world = demo_new_URL" "\<not> open_rejects slow_world"
  "stored slow_world = []" "goto slow_world i = Some 0" "maxRequestRetries slow_world = 3"
  "overhead slow_world i = 1500" "requestHandlerTimeout slow_world = 60000"
  "\<not> pushData_rejects slow_world i"
  "containers (browser slow_world) p = Some demo_elements"
  "\<not> run_rejects slow_world" "\<not> getData_rejects slow_world"
  "\<not> drop_rejects slow_world k"
  by (simp_all add: slow_world_def demo_world_def)

text \<open>The loop on the slow page is the loop on the growing page: it does not look at the containers.\<close>

lemma scroll_loop_slow: "scroll_loop (browser slow_world) 0 0 = Some (Inr 41, 82000)"
proof -
  let ?d = "(growing_page 40)\<lparr>containers := (\<lambda>p. Some demo_elements)\<rparr>"
  have "stable_at ?d 0 n \<longleftrightarrow> 40 \<le> n" for n
  proof -
    have "page_after ?d k p = Some (p + k)" for k p
      by (induction k arbitrary: p) (simp_all add: growing_page_def)
    then show ?thesis
      unfolding stable_at_def measured_def by (auto simp: growing_page_def)
  qed
  then have "stable_at ?d 0 40" "\<forall>k<40. \<not> stable_at ?d 0 k" by simp_all
  from scroll_loop_first_stable [OF this, of 0] obtain q where
    "page_after ?d (Suc 40) 0 = Some q" "scroll_loop ?d 0 0 = Some (Inr q, 0 + 2000 * Suc 40)"
    by blast
  moreover have "page_after ?d k p = Some (p + k)" for k p
    by (induction k arbitrary: p) (simp_all add: growing_page_def)
  ultimately have "scroll_loop ?d 0 0 = Some (Inr 41, 82000)" by simp
  moreover have "browser slow_world = ?d" by (simp add: slow_world_def demo_world_def)
  ultimately show ?thesis by simp
qed

lemma requestHandler_slow: "requestHandler slow_world i 0 items = Some (Inl HandlerTimeout)"
  by (simp add: requestHandler_def scroll_loop_slow slow_world_sel)
    (simp add: slow_world_def demo_world_def growing_page_def)

lemma crashed_world_sel:
  "new_URL crashed_world = demo_new_URL" "\<not> open_rejects crashed_world"
  "run_rejects crashed_world" "\<not> drop_rejects crashed_world k"
  by (simp_all add: crashed_world_def demo_world_def)

lemma decimal_small: "n < 10 \<Longrightarrow> decimal n = [48 + n]"
  by (subst decimal.simps) simp

section \<open>Properties of the route handler\<close>

text \<open>
  C3. In every call that ends with a success response, \<^verbatim>\<open>graphData\<close> has the length
  of \<^verbatim>\<open>videoList\<close>, its \<open>i\<close>-th entry is named "Video " followed by the decimal digits
  of \<open>i + 1\<close> and carries the views of the \<open>i\<close>-th video; the names are pairwise
  different, so the mapping is one-to-one and follows the position in the array. (The
  digits are those of the number: reading them back gives it.)
\<close>

theorem graphData_follows_videoList:
  assumes "POST w request = Some r" "result r = Responded (Success pd)"
  shows "length (graphData pd) = length (videoList pd)
     \<and> (\<forall>i<length (videoList pd).
           name (graphData pd ! i) = js ''Video '' @ decimal (i + 1)
           \<and> point_views (graphData pd ! i) = views (videoList pd ! i))
     \<and> distinct (map name (graphData pd))
     \<and> (\<forall>n. digits_value (decimal n) = n)"
proof -
  from POST_success_data [OF assms] obtain items where "pd = playlistData_of items" ..
  then have g: "graphData pd = graphData_of (videoList pd)" by (simp add: playlistData_of_graph)
  show ?thesis
    unfolding g by (simp add: length_graphData_of nth_graphData_of distinct_names digits_value_decimal)
qed

theorem graphData_follows_videoList_witness:
  "POST demo_world (Body (Some demo_url)) =
     Some \<lparr>result = Responded (Success \<lparr>videoList = demo_videos, graphData = graphData_of demo_videos\<rparr>),
           opens = 1, drop_calls = 1, disposed = 1\<rparr>
   \<and> length (graphData_of demo_videos) = 3
   \<and> map name (graphData_of demo_videos) = [js ''Video 1'', js ''Video 2'', js ''Video 3'']
   \<and> map point_views (graphData_of demo_videos) = [Fin 1000000, Fin 500000, Fin 10]"
proof -
  let ?pd = "\<lparr>videoList = demo_videos, graphData = graphData_of demo_videos\<rparr>"
  let ?r = "\<lparr>result = Responded (Success ?pd), opens = 1, drop_calls = 1, disposed = 1\<rparr>"
  have "result ?r = Responded (Success ?pd)" by simp
  from graphData_follows_videoList [OF POST_demo this]
  have len: "length (graphData_of demo_videos) = length demo_videos"
    and nth: "\<forall>i<length demo_videos.
        name (graphData_of demo_videos ! i) = js ''Video '' @ decimal (i + 1)
        \<and> point_views (graphData_of demo_videos ! i) = views (demo_videos ! i)"
    by simp_all
  have l3: "length demo_videos = 3" by (simp add: demo_videos_def)
  have names: "map name (graphData_of demo_videos) = [js ''Video 1'', js ''Video 2'', js ''Video 3'']"
  proof (rule nth_equalityI)
    show "length (map name (graphData_of demo_videos)) = length [js ''Video 1'', js ''Video 2'', js ''Video 3'']"
      using len l3 by simp
    fix i assume "i < length (map name (graphData_of demo_videos))"
    then have i: "i < 3" using len l3 by simp
    then have "i = 0 \<or> i = 1 \<or> i = 2" by auto
    then show "map name (graphData_of demo_videos) ! i = [js ''Video 1'', js ''Video 2'', js ''Video 3''] ! i"
      using nth len l3 by (auto simp: js_def decimal_small)
  qed
  have vals: "map point_views (graphData_of demo_videos) = [Fin 1000000, Fin 500000, Fin 10]"
  proof (rule nth_equalityI)
    show "length (map point_views (graphData_of demo_videos)) = length [Fin 1000000, Fin 500000, Fin 10]"
      using len l3 by simp
    fix i assume "i < length (map point_views (graphData_of demo_videos))"
    then have i: "i < 3" using len l3 by simp
    then have "i = 0 \<or> i = 1 \<or> i = 2" by auto
    then show "map point_views (graphData_of demo_videos) ! i = [Fin 1000000, Fin 500000, Fin 10] ! i"
      using nth len l3 by (auto simp: demo_videos_def)
  qed
  show ?thesis using POST_demo len l3 names vals by simp
qed

text \<open>
  C4. What validation does. A request without a locator, or with the empty string,
  gets the 400 response "Playlist URL is required"; a locator that the URL constructor
  accepts but that has no \<^verbatim>\<open>list\<close> parameter, or an empty one, gets the 400 response
  "Invalid playlist URL". A non-empty locator that the URL constructor rejects gets no
  response: \<^verbatim>\<open>new URL\<close> is called outside any \<^verbatim>\<open>try\<close>, so the call ends with the
  uncaught \<^verbatim>\<open>TypeError\<close>. In all three cases no dataset is opened.
\<close>

theorem POST_validation:
  "(request = Body None \<or> request = Body (Some []) \<longrightarrow>
      POST w request = Some (before_open (Responded (Failure 400 (js ''Playlist URL is required'')))))
   \<and> (u \<noteq> [] \<and> new_URL w u = Some searchParams
        \<and> (map_of searchParams (js ''list'') = None \<or> map_of searchParams (js ''list'') = Some []) \<longrightarrow>
      POST w (Body (Some u)) = Some (before_open (Responded (Failure 400 (js ''Invalid playlist URL'')))))
   \<and> (u \<noteq> [] \<and> new_URL w u = None \<longrightarrow> POST w (Body (Some u)) = Some (before_open Rejected))
   \<and> opens (before_open res) = 0"
  by (auto simp: POST_def before_open_def)

theorem POST_validation_witness:
  "POST demo_world (Body None) = Some (before_open (Responded (Failure 400 (js ''Playlist URL is required''))))
   \<and> watch_url \<noteq> [] \<and> new_URL demo_world watch_url = Some [(js ''v'', js ''x'')]
   \<and> map_of [(js ''v'', js ''x'')] (js ''list'') = None
   \<and> POST demo_world (Body (Some watch_url)) = Some (before_open (Responded (Failure 400 (js ''Invalid playlist URL''))))
   \<and> js ''not a url'' \<noteq> [] \<and> new_URL demo_world (js ''not a url'') = None
   \<and> POST demo_world (Body (Some (js ''not a url''))) = Some (before_open Rejected)"
proof -
  have w1: "watch_url \<noteq> []" by (simp add: watch_url_def js_def)
  have w2: "new_URL demo_world watch_url = Some [(js ''v'', js ''x'')]"
    by (simp add: demo_world_sel demo_new_URL_def watch_url_def demo_url_def js_def)
  have w3: "map_of [(js ''v'', js ''x'')] (js ''list'') = None" by (simp add: js_def)
  have n1: "js ''not a url'' \<noteq> []" by (simp add: js_def)
  have n2: "new_URL demo_world (js ''not a url'') = None"
    by (simp add: demo_world_sel demo_new_URL_def watch_url_def demo_url_def js_def)
  from POST_validation [of "Body None" demo_world watch_url "[(js ''v'', js ''x'')]"]
    POST_validation [of "Body None" demo_world "js ''not a url''"] w1 w2 w3 n1 n2
  show ?thesis by blast
qed

text \<open>
  C5. Every call of the route returns. It opens at most one dataset, and it opens one
  exactly when validation has passed and \<^verbatim>\<open>Dataset.open\<close> has succeeded; a call that
  opens none never calls \<^verbatim>\<open>drop\<close>. With a \<^verbatim>\<open>drop\<close> that works, a call that has opened
  a dataset calls \<^verbatim>\<open>drop\<close> exactly once and that call disposes of the dataset, on every
  exit path: the success response after a crawl that stored videos, after a failed
  navigation, a selector timeout, a failing script or a handler stopped by the time
  limit, and the 500 response after a rejection of \<^verbatim>\<open>crawler.run\<close> or of the read-back.
  No other result is possible then.
\<close>

theorem session_lifecycle:
  "\<exists>r. POST w request = Some r
      \<and> opens r \<le> 1
      \<and> (opens r = 1 \<longleftrightarrow> (\<exists>u. request = Body (Some u) \<and> valid_locator w u \<and> \<not> open_rejects w))
      \<and> (opens r = 0 \<longrightarrow> drop_calls r = 0 \<and> disposed r = 0)
      \<and> (opens r = 1 \<and> \<not> drop_rejects w 0 \<longrightarrow>
           drop_calls r = 1 \<and> disposed r = 1
           \<and> ((\<exists>items. result r = Responded (Success (playlistData_of items)))
              \<or> result r = Responded (Failure 500 (js ''An error occurred while scraping the playlist''))))"
proof (cases "\<exists>u. request = Body (Some u) \<and> valid_locator w u \<and> \<not> open_rejects w")
  case True
  then obtain u where u: "request = Body (Some u)" "valid_locator w u" "\<not> open_rejects w"
    by blast
  from try_block_returns [of w] obtain r where r: "try_block w = Some r" ..
  have p: "POST w request = Some r" using POST_valid [OF u(2) u(3)] u(1) r by simp
  have o: "opens r = 1" using r by (rule try_block_opens)
  have "drop_calls r = 1 \<and> disposed r = 1
      \<and> ((\<exists>items. result r = Responded (Success (playlistData_of items)))
         \<or> result r = Responded (Failure 500 (js ''An error occurred while scraping the playlist'')))"
    if "\<not> drop_rejects w 0"
    using try_block_cases [OF r] that by (auto simp: catch_block_fields)
  with p o True show ?thesis by auto
next
  case False
  from POST_not_opened [OF False] obtain res where "POST w request = Some (before_open res)" ..
  with False show ?thesis by (simp add: before_open_def)
qed

theorem session_lifecycle_witness:
  "valid_locator demo_world demo_url \<and> \<not> open_rejects demo_world \<and> \<not> drop_rejects demo_world 0
   \<and> (\<exists>r. POST demo_world (Body (Some demo_url)) = Some r
          \<and> opens r = 1 \<and> drop_calls r = 1 \<and> disposed r = 1)
   \<and> valid_locator never_found_world demo_url \<and> \<not> open_rejects never_found_world
   \<and> \<not> drop_rejects never_found_world 0
   \<and> (\<exists>r. POST never_found_world (Body (Some demo_url)) = Some r
          \<and> opens r = 1 \<and> drop_calls r = 1 \<and> disposed r = 1)
   \<and> valid_locator offline_world demo_url \<and> \<not> open_rejects offline_world
   \<and> \<not> drop_rejects offline_world 0
   \<and> (\<exists>r. POST offline_world (Body (Some demo_url)) = Some r
          \<and> opens r = 1 \<and> drop_calls r = 1 \<and> disposed r = 1)
   \<and> valid_locator endless_world demo_url \<and> \<not> open_rejects endless_world
   \<and> \<not> drop_rejects endless_world 0
   \<and> (\<exists>r. POST endless_world (Body (Some demo_url)) = Some r
          \<and> opens r = 1 \<and> drop_calls r = 1 \<and> disposed r = 1)
   \<and> valid_locator crashed_world demo_url \<and> \<not> open_rejects crashed_world
   \<and> \<not> drop_rejects crashed_world 0
   \<and> (\<exists>r. POST crashed_world (Body (Some demo_url)) = Some r
          \<and> opens r = 1 \<and> drop_calls r = 1 \<and> disposed r = 1)
   \<and> (\<exists>r. POST demo_world (Body None) = Some r
          \<and> opens r = 0 \<and> drop_calls r = 0 \<and> disposed r = 0)"
proof -
  have opened: "\<exists>r. POST w (Body (Some demo_url)) = Some r
          \<and> opens r = 1 \<and> drop_calls r = 1 \<and> disposed r = 1"
    if "valid_locator w demo_url" "\<not> open_rejects w" "\<not> drop_rejects w 0" for w :: "nat world"
    using session_lifecycle [of w "Body (Some demo_url)"] that by blast
  have v: "valid_locator demo_world demo_url" "valid_locator never_found_world demo_url"
    "valid_locator offline_world demo_url" "valid_locator endless_world demo_url"
    "valid_locator crashed_world demo_url"
    using demo_locator [of demo_world] demo_locator [of never_found_world]
      demo_locator [of offline_world] demo_locator [of endless_world]
      demo_locator [of crashed_world]
    by (simp_all add: demo_world_sel never_found_world_sel offline_world_sel
          endless_world_sel crashed_world_sel)
  have o: "\<not> open_rejects demo_world" "\<not> open_rejects never_found_world"
    "\<not> open_rejects offline_world" "\<not> open_rejects endless_world"
    "\<not> open_rejects crashed_world"
    by (simp_all add: demo_world_sel never_found_world_sel offline_world_sel
          endless_world_sel crashed_world_sel)
  have d: "\<not> drop_rejects demo_world 0" "\<not> drop_rejects never_found_world 0"
    "\<not> drop_rejects offline_world 0" "\<not> drop_rejects endless_world 0"
    "\<not> drop_rejects crashed_world 0"
    by (simp_all add: demo_world_sel never_found_world_sel offline_world_sel
          endless_world_sel crashed_world_sel)
  have "\<nexists>u. Body None = Body (Some u) \<and> valid_locator demo_world u \<and> \<not> open_rejects demo_world"
    by simp
  with session_lifecycle [of demo_world "Body None"]
  have closed: "\<exists>r. POST demo_world (Body None) = Some r
          \<and> opens r = 0 \<and> drop_calls r = 0 \<and> disposed r = 0"
    by (metis le_antisym le_zero_eq not_one_le_zero less_one linorder_not_less)
  from opened [OF v(1) o(1) d(1)] opened [OF v(2) o(2) d(2)] opened [OF v(3) o(3) d(3)]
    opened [OF v(4) o(4) d(4)] opened [OF v(5) o(5) d(5)] closed v o d
  show ?thesis by blast
qed

text \<open>The time limit at work: on a page that never stops growing, and on one that takes
  82 seconds to do so, every attempt is stopped by the crawler, and the call returns
  the success response with two empty lists, after one call of \<^verbatim>\<open>drop\<close>; the videos
  that the slow page shows are not returned.\<close>

lemma POST_endless:
  "POST endless_world (Body (Some demo_url)) =
     Some \<lparr>result = Responded (Success \<lparr>videoList = [], graphData = []\<rparr>),
           opens = 1, drop_calls = 1, disposed = 1\<rparr>"
proof -
  have "crawler_run endless_world (stored endless_world) = Some (Inr ([], 1))"
    by (simp add: crawler_run_def attempts_all_errors requestHandler_endless endless_world_sel)
  from try_block_success [OF this] show ?thesis
    using POST_valid [of endless_world demo_url] demo_locator [of endless_world]
    by (simp add: endless_world_sel playlistData_of_Nil)
qed

lemma POST_slow:
  "POST slow_world (Body (Some demo_url)) =
     Some \<lparr>result = Responded (Success \<lparr>videoList = [], graphData = []\<rparr>),
           opens = 1, drop_calls = 1, disposed = 1\<rparr>"
proof -
  have "crawler_run slow_world (stored slow_world) = Some (Inr ([], 1))"
    by (simp add: crawler_run_def attempts_all_errors requestHandler_slow slow_world_sel)
  from try_block_success [OF this] show ?thesis
    using POST_valid [of slow_world demo_url] demo_locator [of slow_world]
    by (simp add: slow_world_sel playlistData_of_Nil)
qed

text \<open>The hypothesis on \<^verbatim>\<open>drop\<close> is needed. The call at line 132 is inside the \<^verbatim>\<open>try\<close>
  block: when it rejects, the \<^verbatim>\<open>catch\<close> block calls \<^verbatim>\<open>drop\<close> again, and when that call
  rejects too, the call of the route ends with the dataset still there.\<close>

lemma rejecting_drop_runs:
  "POST flaky_drop_world (Body (Some demo_url)) =
     Some \<lparr>result = Responded (Failure 500 (js ''An error occurred while scraping the playlist'')),
           opens = 1, drop_calls = 2, disposed = 1\<rparr>
   \<and> POST broken_drop_world (Body (Some demo_url)) =
     Some \<lparr>result = Rejected, opens = 1, drop_calls = 2, disposed = 0\<rparr>"
proof -
  have "crawler_run flaky_drop_world (stored flaky_drop_world) = Some (Inr ([\<lparr>videos = demo_videos\<rparr>], 0))"
    using crawler_run_demo [of flaky_drop_world "[]"] by (simp add: flaky_drop_world_sel)
  then have "try_block flaky_drop_world = Some (catch_block flaky_drop_world 1)"
    by (simp add: try_block_def flaky_drop_world_sel)
  then have a: "POST flaky_drop_world (Body (Some demo_url)) = Some (catch_block flaky_drop_world 1)"
    using POST_valid [of flaky_drop_world demo_url] demo_locator [of flaky_drop_world]
    by (simp add: flaky_drop_world_sel)
  have "crawler_run broken_drop_world (stored broken_drop_world) = Some (Inr ([\<lparr>videos = demo_videos\<rparr>], 0))"
    using crawler_run_demo [of broken_drop_world "[]"] by (simp add: broken_drop_world_sel)
  then have "try_block broken_drop_world = Some (catch_block broken_drop_world 1)"
    by (simp add: try_block_def broken_drop_world_sel)
  then have b: "POST broken_drop_world (Body (Some demo_url)) = Some (catch_block broken_drop_world 1)"
    using POST_valid [of broken_drop_world demo_url] demo_locator [of broken_drop_world]
    by (simp add: broken_drop_world_sel)
  show ?thesis
    unfolding a b by (simp add: catch_block_def flaky_drop_world_sel broken_drop_world_sel)
qed

text \<open>
  C6. What the code does when the crawl fails: if every attempt of the crawler fails
  (failed navigation, selector timeout, failing in-page script), the failure only
  reaches \<^verbatim>\<open>failedRequestHandler\<close>, which writes a log line; \<^verbatim>\<open>crawler.run\<close> resolves,
  the read-back is empty and the caller receives the success response with an empty
  \<^verbatim>\<open>videoList\<close> and an empty \<^verbatim>\<open>graphData\<close>, not the 500 response.
\<close>

theorem failed_crawl_answers_success:
  assumes "valid_locator w u" "\<not> open_rejects w" "stored w = []"
    "\<not> run_rejects w" "\<not> getData_rejects w" "\<not> drop_rejects w 0"
    "\<forall>i\<le>maxRequestRetries w. attempt_fails w i"
  shows "POST w (Body (Some u)) =
     Some \<lparr>result = Responded (Success \<lparr>videoList = [], graphData = []\<rparr>),
           opens = 1, drop_calls = 1, disposed = 1\<rparr>"
proof -
  have "crawler_run w (stored w) = Some (Inr ([], 1))"
    using crawler_run_all_fail [OF assms(4) assms(7), of "[]"] assms(3) by simp
  from try_block_success [OF this assms(5) assms(6)] show ?thesis
    using POST_valid [OF assms(1) assms(2)] by (simp add: playlistData_of_Nil)
qed

theorem failed_crawl_answers_success_witness:
  "valid_locator never_found_world demo_url \<and> \<not> open_rejects never_found_world
   \<and> stored never_found_world = [] \<and> \<not> run_rejects never_found_world
   \<and> \<not> getData_rejects never_found_world \<and> \<not> drop_rejects never_found_world 0
   \<and> maxRequestRetries never_found_world = 3
   \<and> attempt_fails never_found_world 0 \<and> attempt_fails never_found_world 1
   \<and> attempt_fails never_found_world 2 \<and> attempt_fails never_found_world 3
   \<and> POST never_found_world (Body (Some demo_url)) =
     Some \<lparr>result = Responded (Success \<lparr>videoList = [], graphData = []\<rparr>),
           opens = 1, drop_calls = 1, disposed = 1\<rparr>"
proof -
  have v: "valid_locator never_found_world demo_url"
    using demo_locator [of never_found_world] by (simp add: never_found_world_sel)
  have m: "maxRequestRetries never_found_world = 3"
    by (simp add: never_found_world_def demo_world_def)
  have a: "attempt_fails never_found_world i" for i
    by (simp add: attempt_fails_def never_found_world_sel)
  then have f: "\<forall>i\<le>maxRequestRetries never_found_world. attempt_fails never_found_world i"
    by simp
  from failed_crawl_answers_success [OF v _ _ _ _ _ f] v m a show ?thesis
    by (simp add: never_found_world_sel)
qed

text \<open>The sibling path: a rejection of \<^verbatim>\<open>crawler.run\<close> or of the read-back does reach
  the \<^verbatim>\<open>catch\<close> block and gets the 500 response.\<close>

lemma rejected_run_answers_500:
  assumes "valid_locator w u" "\<not> open_rejects w" "run_rejects w \<or> getData_rejects w"
    "\<not> drop_rejects w 0" "POST w (Body (Some u)) = Some r"
  shows "result r = Responded (Failure 500 (js ''An error occurred while scraping the playlist''))"
proof -
  have t: "try_block w = Some r" using assms(5) POST_valid [OF assms(1) assms(2)] by simp
  show ?thesis
  proof (cases "run_rejects w")
    case True
    with t assms(4) show ?thesis by (auto simp: try_block_def crawler_run_def catch_block_def)
  next
    case False
    with assms(3) have "getData_rejects w" by simp
    with t assms(4) show ?thesis
      by (auto simp: try_block_def catch_block_def split: option.splits sum.splits)
  qed
qed

text \<open>
  C9. If the crawl completes and the read-back yields no items, the call returns the
  success response with an empty \<^verbatim>\<open>videoList\<close> and an empty \<^verbatim>\<open>graphData\<close>.
\<close>

theorem empty_store_answers_success:
  assumes "valid_locator w u" "\<not> open_rejects w"
    "crawler_run w (stored w) = Some (Inr ([], failed))"
    "\<not> getData_rejects w" "\<not> drop_rejects w 0"
  shows "POST w (Body (Some u)) =
     Some \<lparr>result = Responded (Success \<lparr>videoList = [], graphData = []\<rparr>),
           opens = 1, drop_calls = 1, disposed = 1\<rparr>"
  using try_block_success [OF assms(3) assms(4) assms(5)] POST_valid [OF assms(1) assms(2)]
  by (simp add: playlistData_of_Nil)

theorem empty_store_answers_success_witness:
  "valid_locator offline_world demo_url \<and> \<not> open_rejects offline_world
   \<and> crawler_run offline_world (stored offline_world) = Some (Inr ([], 1))
   \<and> \<not> getData_rejects offline_world \<and> \<not> drop_rejects offline_world 0
   \<and> POST offline_world (Body (Some demo_url)) =
     Some \<lparr>result = Responded (Success \<lparr>videoList = [], graphData = []\<rparr>),
           opens = 1, drop_calls = 1, disposed = 1\<rparr>"
proof -
  have v: "valid_locator offline_world demo_url"
    using demo_locator [of offline_world] by (simp add: offline_world_sel)
  have c: "crawler_run offline_world (stored offline_world) = Some (Inr ([], 1))"
    by (simp add: crawler_run_all_fail attempt_fails_def offline_world_sel)
  from empty_store_answers_success [OF v _ c] v c show ?thesis
    by (simp add: offline_world_sel)
qed

text \<open>
  C10. The response is built from the first batch of the read-back alone: the batches
  after it change nothing, neither in \<^verbatim>\<open>videoList\<close> nor in \<^verbatim>\<open>graphData\<close>.
\<close>

theorem first_batch_only:
  "playlistData_of (b # rest) = playlistData_of [b]
   \<and> (valid_locator w u \<and> \<not> open_rejects w
        \<and> crawler_run w (stored w) = Some (Inr (b # rest, failed))
        \<and> \<not> getData_rejects w \<and> \<not> drop_rejects w 0 \<longrightarrow>
      POST w (Body (Some u)) =
        Some \<lparr>result = Responded (Success \<lparr>videoList = videos b, graphData = graphData_of (videos b)\<rparr>),
              opens = 1, drop_calls = 1, disposed = 1\<rparr>)"
proof -
  have "POST w (Body (Some u)) =
        Some \<lparr>result = Responded (Success \<lparr>videoList = videos b, graphData = graphData_of (videos b)\<rparr>),
              opens = 1, drop_calls = 1, disposed = 1\<rparr>"
    if "valid_locator w u" "\<not> open_rejects w"
      "crawler_run w (stored w) = Some (Inr (b # rest, failed))"
      "\<not> getData_rejects w" "\<not> drop_rejects w 0"
    using try_block_success [OF that(3) that(4) that(5)] POST_valid [OF that(1) that(2)]
    by (simp add: playlistData_of_Cons)
  then show ?thesis by (simp add: playlistData_of_Cons)
qed

theorem first_batch_only_witness:
  "valid_locator collided_world demo_url \<and> \<not> open_rejects collided_world
   \<and> crawler_run collided_world (stored collided_world) =
       Some (Inr (old_batch # [\<lparr>videos = demo_videos\<rparr>], 0))
   \<and> \<not> getData_rejects collided_world \<and> \<not> drop_rejects collided_world 0
   \<and> POST collided_world (Body (Some demo_url)) =
       Some \<lparr>result = Responded (Success \<lparr>videoList = videos old_batch,
                                           graphData = graphData_of (videos old_batch)\<rparr>),
             opens = 1, drop_calls = 1, disposed = 1\<rparr>"
proof -
  have v: "valid_locator collided_world demo_url"
    using demo_locator [of collided_world] by (simp add: collided_world_sel)
  have c: "crawler_run collided_world (stored collided_world) =
       Some (Inr (old_batch # [\<lparr>videos = demo_videos\<rparr>], 0))"
    using crawler_run_demo [of collided_world "[old_batch]"] by (simp add: collided_world_sel)
  have o: "\<not> open_rejects collided_world" "\<not> getData_rejects collided_world"
    "\<not> drop_rejects collided_world 0"
    by (simp_all add: collided_world_sel)
  from first_batch_only [of old_batch "[\<lparr>videos = demo_videos\<rparr>]" collided_world demo_url 0] v c o
  show ?thesis by blast
qed


end
